theory Spec2Isabelle
  imports Complex_Main "HOL-Library.Sublist" "HOL-Library.Multiset"
begin

section \<open>Values, errors and constants of analyze_dlm.py\<close>

text \<open>
  A float64 cell is modelled by \<open>fl\<close>: not-a-number, the two infinities, or a finite value
  carried as an exact real. Rounding, overflow and the sign of zero are not modelled.
  The raw columns read from the recording hold finite numbers and are typed \<open>real\<close>;
  derived columns, which pandas fills with NaN at epoch starts, are typed \<open>fl\<close>.
\<close>

datatype fl = NaN | NInf | PInf | Fin real

datatype error = ValueError | KeyError | IndexError

definition FRAM_RATE :: real where "FRAM_RATE = 40"
definition MIN_DUR :: real where "MIN_DUR = 2.5 * FRAM_RATE"
definition MAX_FISH :: real where "MAX_FISH = 1"
definition MAX_INST_DISPL :: real where "MAX_INST_DISPL = 35"
definition MAX_ANG_VEL :: real where "MAX_ANG_VEL = 100"
definition MAX_ANG_ACCEL :: real where "MAX_ANG_ACCEL = 32000"
definition MAX_DELTA_T :: real where "MAX_DELTA_T = 0.05"
definition MAX_DIST_TRAVEL :: real where "MAX_DIST_TRAVEL = 26"
definition EPOCH_BUF :: nat where "EPOCH_BUF = 2"
definition SM_WINDOW_FOR_FILTER :: nat where "SM_WINDOW_FOR_FILTER = 9"

subsection \<open>float64 arithmetic with NaN and infinities\<close>

fun fneg :: "fl \<Rightarrow> fl" where
  "fneg NaN = NaN"
| "fneg NInf = PInf"
| "fneg PInf = NInf"
| "fneg (Fin a) = Fin (- a)"

fun fadd :: "fl \<Rightarrow> fl \<Rightarrow> fl" where
  "fadd NaN v = NaN"
| "fadd u NaN = NaN"
| "fadd PInf NInf = NaN"
| "fadd NInf PInf = NaN"
| "fadd PInf v = PInf"
| "fadd u PInf = PInf"
| "fadd NInf v = NInf"
| "fadd u NInf = NInf"
| "fadd (Fin a) (Fin b) = Fin (a + b)"

definition fsub :: "fl \<Rightarrow> fl \<Rightarrow> fl" where
  "fsub u v = fadd u (fneg v)"

text \<open>\<open>np.divide\<close>: a finite value over zero is an infinity of the numerator's sign, zero over
  zero and infinity over infinity are NaN.\<close>

fun fdiv :: "fl \<Rightarrow> fl \<Rightarrow> fl" where
  "fdiv NaN v = NaN"
| "fdiv u NaN = NaN"
| "fdiv (Fin a) (Fin b) =
     (if b \<noteq> 0 then Fin (a / b)
      else if 0 < a then PInf else if a < 0 then NInf else NaN)"
| "fdiv (Fin a) v = Fin 0"
| "fdiv PInf (Fin b) = (if b < 0 then NInf else PInf)"
| "fdiv NInf (Fin b) = (if b < 0 then PInf else NInf)"
| "fdiv u v = NaN"

fun fabs :: "fl \<Rightarrow> fl" where
  "fabs NaN = NaN"
| "fabs NInf = PInf"
| "fabs PInf = PInf"
| "fabs (Fin a) = Fin \<bar>a\<bar>"

text \<open>Comparisons: every comparison with NaN is false.\<close>

fun fle :: "fl \<Rightarrow> fl \<Rightarrow> bool" where
  "fle NaN v = False"
| "fle u NaN = False"
| "fle NInf v = True"
| "fle u PInf = True"
| "fle (Fin a) (Fin b) = (a \<le> b)"
| "fle u v = False"

fun flt :: "fl \<Rightarrow> fl \<Rightarrow> bool" where
  "flt NaN v = False"
| "flt u NaN = False"
| "flt PInf v = False"
| "flt u NInf = False"
| "flt (Fin a) (Fin b) = (a < b)"
| "flt u v = True"

text \<open>\<open>np.nanmax\<close>: the largest value that is not NaN; NaN when every value is NaN
  (numpy warns and returns NaN); ValueError on an empty array.\<close>

fun nan_max2 :: "fl \<Rightarrow> fl \<Rightarrow> fl" where
  "nan_max2 NaN v = v"
| "nan_max2 u NaN = u"
| "nan_max2 u v = (if fle u v then v else u)"

definition nanmax :: "fl list \<Rightarrow> error + fl" where
  "nanmax vs = (if vs = [] then Inl ValueError else Inr (foldr nan_max2 vs NaN))"

section \<open>Tables and the epoch grouper\<close>

text \<open>
  A DataFrame is the list of its rows in row order. Every row carries its index label and
  its \<open>epochNum\<close>; the tables of the pipeline extend this record with their columns.
\<close>

record frame_id =
  label :: nat
  epochNum :: int

text \<open>\<open>df.groupby('epochNum', sort=False)\<close>: the keys in the order of their first row, each
  with the rows that carry it, in table order.\<close>

fun first_seen :: "int list \<Rightarrow> int list \<Rightarrow> int list" where
  "first_seen seen [] = []"
| "first_seen seen (k # ks) =
     (if k \<in> set seen then first_seen seen ks else k # first_seen (k # seen) ks)"

definition get_group :: "'a frame_id_scheme list \<Rightarrow> int \<Rightarrow> 'a frame_id_scheme list" where
  "get_group df k = filter (\<lambda>r. epochNum r = k) df"

definition grp_by_epoch :: "'a frame_id_scheme list \<Rightarrow> (int \<times> 'a frame_id_scheme list) list" where
  "grp_by_epoch df = map (\<lambda>k. (k, get_group df k)) (first_seen [] (map epochNum df))"

text \<open>\<open>grouped.cumcount()\<close> numbers each row within its group from the group's start,
  \<open>cumcount(ascending=False)\<close> from the group's end; both keep the table's row order.\<close>

definition cumcount :: "'a frame_id_scheme list \<Rightarrow> nat list" where
  "cumcount df =
     map (\<lambda>i. length (filter (\<lambda>r. epochNum r = epochNum (df ! i)) (take i df))) [0..<length df]"

definition cumcount_desc :: "'a frame_id_scheme list \<Rightarrow> nat list" where
  "cumcount_desc df =
     map (\<lambda>i. length (filter (\<lambda>r. epochNum r = epochNum (df ! i)) (drop (Suc i) df)))
       [0..<length df]"

text \<open>\<open>df[mask]\<close> with a boolean mask of the table's length.\<close>

definition boolean_mask :: "'r list \<Rightarrow> bool list \<Rightarrow> 'r list" where
  "boolean_mask df m = map fst (filter snd (zip df m))"

text \<open>\<open>grouped.filter(func)\<close>: \<open>func\<close> is called on each group in group order, an exception
  from any call propagates, and the rows of the groups for which it returned true are
  returned in table order.\<close>

fun eval_groups :: "('r list \<Rightarrow> error + bool) \<Rightarrow> (int \<times> 'r list) list \<Rightarrow> error + int list" where
  "eval_groups P [] = Inr []"
| "eval_groups P ((k, g) # gs) =
     (case P g of
        Inl e \<Rightarrow> Inl e
      | Inr b \<Rightarrow> (case eval_groups P gs of
                   Inl e \<Rightarrow> Inl e
                 | Inr ks \<Rightarrow> Inr (if b then k # ks else ks)))"

definition grp_filter ::
  "('a frame_id_scheme list \<Rightarrow> error + bool) \<Rightarrow> 'a frame_id_scheme list
     \<Rightarrow> error + 'a frame_id_scheme list" where
  "grp_filter P df =
     (case eval_groups P (grp_by_epoch df) of
        Inl e \<Rightarrow> Inl e
      | Inr ks \<Rightarrow> Inr (filter (\<lambda>r. epochNum r \<in> set ks) df))"

section \<open>Structural filter\<close>

record raw_frame = frame_id +
  time :: real
  absx :: real
  absy :: real
  absHeadx :: real
  absHeady :: real
  ang :: real
  fishNum :: real
  fishLen :: real

text \<open>The truncation of \<open>raw_filter\<close>: the rows at least \<open>EPOCH_BUF\<close> from both ends of their
  epoch.\<close>

definition del_buf :: "'a frame_id_scheme list \<Rightarrow> 'a frame_id_scheme list" where
  "del_buf df =
     boolean_mask df
       (map (\<lambda>(d, c). d \<ge> EPOCH_BUF \<and> c \<ge> EPOCH_BUF) (zip (cumcount_desc df) (cumcount df)))"

text \<open>The predicate of the second step; Python's \<open>and\<close> evaluates \<open>np.nanmax\<close> only when the
  length test passed.\<close>

definition raw_keep :: "'a raw_frame_scheme list \<Rightarrow> error + bool" where
  "raw_keep g =
     (if real (length g) \<ge> MIN_DUR
      then (case nanmax (map (\<lambda>r. Fin (fishNum r)) g) of
              Inl e \<Rightarrow> Inl e
            | Inr m \<Rightarrow> Inr (flt m (Fin MAX_FISH)))
      else Inr False)"

definition raw_filter :: "'a raw_frame_scheme list \<Rightarrow> error + 'a raw_frame_scheme list" where
  "raw_filter df = grp_filter raw_keep (del_buf df)"


text \<open>Row-by-row form of the truncation, used to reason about \<open>del_buf\<close>: \<open>pre\<close> holds the
  rows already passed, so the two counts are the cumcounts of the row at hand.\<close>

fun del_buf_from :: "'a frame_id_scheme list \<Rightarrow> 'a frame_id_scheme list \<Rightarrow> 'a frame_id_scheme list" where
  "del_buf_from pre [] = []"
| "del_buf_from pre (r # rs) =
     (if length (filter (\<lambda>q. epochNum q = epochNum r) rs) \<ge> EPOCH_BUF
         \<and> length (filter (\<lambda>q. epochNum q = epochNum r) pre) \<ge> EPOCH_BUF
      then [r] else []) @ del_buf_from (pre @ [r]) rs"

section \<open>Smoothing function\<close>

text \<open>A Series is the list of its (index label, value) pairs.\<close>

definition fsum :: "fl list \<Rightarrow> fl" where
  "fsum vs = foldr fadd vs (Fin 0)"

text \<open>\<open>np.convolve(a, np.ones(WSZ, dtype=int), 'valid')\<close>: the sums of the full windows; numpy
  swaps the arguments when the kernel is the longer one, and each output is then the sum of
  all of \<open>a\<close>; an empty argument raises ValueError.\<close>

definition convolve_valid_ones :: "fl list \<Rightarrow> nat \<Rightarrow> error + fl list" where
  "convolve_valid_ones a WSZ =
     (if a = [] \<or> WSZ = 0 then Inl ValueError
      else if WSZ \<le> length a
        then Inr (map (\<lambda>j. fsum (take WSZ (drop j a))) [0..<length a - WSZ + 1])
        else Inr (replicate (WSZ - length a + 1) (fsum a)))"

fun np_cumsum_from :: "fl \<Rightarrow> fl list \<Rightarrow> fl list" where
  "np_cumsum_from acc [] = []"
| "np_cumsum_from acc (v # vs) = fadd acc v # np_cumsum_from (fadd acc v) vs"

text \<open>\<open>np.cumsum\<close> of a Series is \<open>Series.cumsum\<close>, which skips NaN: the NaN cells count as 0
  in the running sum and are NaN in the result.\<close>

definition pd_cumsum :: "fl list \<Rightarrow> fl list" where
  "pd_cumsum a =
     map (\<lambda>(v, s). if v = NaN then NaN else s)
       (zip a (np_cumsum_from (Fin 0) (map (\<lambda>v. if v = NaN then Fin 0 else v) a)))"

text \<open>The slice \<open>[::2]\<close>.\<close>

fun every_other :: "'v list \<Rightarrow> 'v list" where
  "every_other [] = []"
| "every_other [v] = [v]"
| "every_other (v # w # vs) = v # every_other vs"

text \<open>A Series divided by an array: cell by cell when the lengths agree, by the single cell
  of a one-element array (numpy broadcasting), and ValueError on any other lengths.\<close>

definition series_div :: "fl list \<Rightarrow> nat list \<Rightarrow> error + fl list" where
  "series_div s r =
     (if length s = length r then Inr (map (\<lambda>(v, d). fdiv v (Fin (real d))) (zip s r))
      else if length r = 1 then Inr (map (\<lambda>v. fdiv v (Fin (real (hd r)))) s)
      else Inl ValueError)"

definition smooth_series_ML :: "(nat \<times> fl) list \<Rightarrow> nat \<Rightarrow> error + (nat \<times> fl) list" where
  "smooth_series_ML a WSZ =
     (case convolve_valid_ones (map snd a) WSZ of
        Inl e \<Rightarrow> Inl e
      | Inr conv \<Rightarrow>
          (let out0 = map (\<lambda>v. fdiv v (Fin (real WSZ))) conv;
               r = filter odd [1..<WSZ - 1]
           in case series_div (every_other (pd_cumsum (take (WSZ - 1) (map snd a)))) r of
                Inl e \<Rightarrow> Inl e
              | Inr start \<Rightarrow>
                  (case series_div (every_other (pd_cumsum (take (WSZ - 1) (rev (map snd a))))) r of
                     Inl e \<Rightarrow> Inl e
                   | Inr stop \<Rightarrow>
                       (let res = start @ out0 @ rev stop
                        in if length res = length a then Inr (zip (map fst a) res)
                           else Inl ValueError))))"


section \<open>Group-wise column operations\<close>

text \<open>\<open>Series.diff()\<close> of one series: NaN first, then each value minus its predecessor.\<close>

fun series_diff :: "fl list \<Rightarrow> fl list" where
  "series_diff [] = []"
| "series_diff (v # vs) = NaN # map (\<lambda>(p, w). fsub w p) (zip (v # vs) vs)"

text \<open>\<open>grouped[col].diff()\<close>: the difference to the previous row of the same epoch, NaN at
  the first row of each epoch, returned in table order. \<open>prev\<close> holds the last value seen
  for each key.\<close>

fun grp_diff_from :: "(int \<Rightarrow> fl option) \<Rightarrow> (int \<times> fl) list \<Rightarrow> fl list" where
  "grp_diff_from prev [] = []"
| "grp_diff_from prev ((k, v) # kvs) =
     (case prev k of None \<Rightarrow> NaN | Some p \<Rightarrow> fsub v p) # grp_diff_from (prev(k \<mapsto> v)) kvs"

definition grp_diff :: "int list \<Rightarrow> fl list \<Rightarrow> fl list" where
  "grp_diff ks vs = grp_diff_from Map.empty (zip ks vs)"

text \<open>\<open>grouped[col].transform('first')\<close> on a column without NaN: every row receives the value
  of the first row of its epoch. \<open>fst_val\<close> holds the first value seen for each key.\<close>

fun grp_transform_first_from :: "(int \<Rightarrow> real option) \<Rightarrow> (int \<times> real) list \<Rightarrow> real list" where
  "grp_transform_first_from fst_val [] = []"
| "grp_transform_first_from fst_val ((k, v) # kvs) =
     (case fst_val k of
        None \<Rightarrow> v # grp_transform_first_from (fst_val(k \<mapsto> v)) kvs
      | Some f \<Rightarrow> f # grp_transform_first_from fst_val kvs)"

definition grp_transform_first :: "int list \<Rightarrow> real list \<Rightarrow> real list" where
  "grp_transform_first ks vs = grp_transform_first_from Map.empty (zip ks vs)"

section \<open>Kinematics stage 1\<close>

record trunc_frame = raw_frame +
  oriIndex :: nat

text \<open>\<open>raw_filter(raw).reset_index().rename(columns={'index': 'oriIndex'})\<close>: the old label
  becomes the column \<open>oriIndex\<close> and the rows are labelled by position.\<close>

definition reset_index :: "raw_frame list \<Rightarrow> trunc_frame list" where
  "reset_index df =
     map (\<lambda>i. let r = df ! i in
            \<lparr>label = i, epochNum = epochNum r, time = time r, absx = absx r, absy = absy r,
             absHeadx = absHeadx r, absHeady = absHeady r, ang = ang r, fishNum = fishNum r,
             fishLen = fishLen r, oriIndex = label r\<rparr>) [0..<length df]"

text \<open>
  The table \<open>ana\<close>: \<open>deltaT\<close> and the centered coordinates beside the columns taken from
  \<open>raw_truncate\<close>. The model keeps the whole \<open>raw_truncate\<close> row under the new columns (the
  source copies \<open>oriIndex\<close>, \<open>epochNum\<close>, \<open>ang\<close> and \<open>absy\<close>; no later step reads the others
  from \<open>ana\<close>), and leaves out \<open>absTime\<close>, which comes from the file name. The columns \<open>x\<close>,
  \<open>y\<close> and \<open>dist\<close> are named \<open>x_col\<close>, \<open>y_col\<close> and \<open>dist_col\<close>.
\<close>

record ana_frame = trunc_frame +
  deltaT :: fl
  x_col :: real
  y_col :: real
  headx :: real
  heady :: real
  centeredAng :: real

text \<open>Lines 136 to 159 of \<open>analyze_dlm\<close>. The join of the centered coordinates is by position,
  as \<open>raw_truncate\<close> is labelled by position.\<close>

definition kinematics1 :: "trunc_frame list \<Rightarrow> ana_frame list" where
  "kinematics1 rt =
     (let ks = map epochNum rt;
          dT = grp_diff ks (map (\<lambda>r. Fin (time r)) rt);
          fx = grp_transform_first ks (map absx rt);
          fy = grp_transform_first ks (map absy rt);
          fhx = grp_transform_first ks (map absHeadx rt);
          fhy = grp_transform_first ks (map absHeady rt);
          fa = grp_transform_first ks (map ang rt)
      in map (\<lambda>i. let r = rt ! i in
            \<lparr>label = label r, epochNum = epochNum r, time = time r, absx = absx r, absy = absy r,
             absHeadx = absHeadx r, absHeady = absHeady r, ang = ang r, fishNum = fishNum r,
             fishLen = fishLen r, oriIndex = oriIndex r,
             deltaT = dT ! i, x_col = absx r - fx ! i, y_col = absy r - fy ! i,
             headx = absHeadx r - fhx ! i, heady = absHeady r - fhy ! i,
             centeredAng = ang r - fa ! i\<rparr>) [0..<length rt])"

section \<open>Orientation and timing filter\<close>

definition gap_keep :: "'a ana_frame_scheme list \<Rightarrow> error + bool" where
  "gap_keep g =
     (case nanmax (map deltaT g) of
        Inl e \<Rightarrow> Inl e
      | Inr m \<Rightarrow> Inr (fle m (Fin MAX_DELTA_T)))"

definition mean :: "real list \<Rightarrow> real" where
  "mean vs = sum_list vs / real (length vs)"

text \<open>\<open>((g['headx'].mean() - g['x'].mean()) * g.tail(1)['x'].values)[0] >= 0\<close>; the index
  \<open>[0]\<close> raises IndexError on an empty group.\<close>

definition dir_keep :: "'a ana_frame_scheme list \<Rightarrow> error + bool" where
  "dir_keep g =
     (if g = [] then Inl IndexError
      else Inr ((mean (map headx g) - mean (map x_col g)) * x_col (last g) \<ge> 0))"

definition dur_y_x_filter :: "'a ana_frame_scheme list \<Rightarrow> error + 'a ana_frame_scheme list" where
  "dur_y_x_filter df =
     (case grp_filter gap_keep df of
        Inl e \<Rightarrow> Inl e
      | Inr f1 \<Rightarrow> grp_filter dir_keep f1)"

section \<open>Kinematics stage 2\<close>

record kin_frame = ana_frame +
  xvel :: fl
  yvel :: fl
  dist_col :: fl
  displ :: fl
  angVel :: fl
  angVelSmoothed :: fl
  angAccel :: fl







section \<open>Plausibility filter\<close>

definition median3 :: "real \<Rightarrow> real \<Rightarrow> real \<Rightarrow> real" where
  "median3 a b c = max (min a b) (min (max a b) c)"

text \<open>\<open>Series.rolling(3, center=True).median()\<close>: NaN where the window of three is not
  complete or holds a cell that is not a finite number.\<close>

definition rolling_median3 :: "fl list \<Rightarrow> fl list" where
  "rolling_median3 vs =
     map (\<lambda>i. if 1 \<le> i \<and> Suc i < length vs
               then (case (vs ! (i - 1), vs ! i, vs ! Suc i) of
                       (Fin a, Fin b, Fin c) \<Rightarrow> Fin (median3 a b c)
                     | _ \<Rightarrow> NaN)
               else NaN) [0..<length vs]"

definition displ_dist_keep :: "'a kin_frame_scheme list \<Rightarrow> error + bool" where
  "displ_dist_keep g =
     (case nanmax (map (\<lambda>r. fabs (displ r)) g) of
        Inl e \<Rightarrow> Inl e
      | Inr m \<Rightarrow>
          if fle m (Fin MAX_INST_DISPL)
          then (case nanmax (map (\<lambda>(d, md). fabs (fsub d md))
                               (zip (map dist_col g) (rolling_median3 (map dist_col g)))) of
                  Inl e \<Rightarrow> Inl e
                | Inr m2 \<Rightarrow> Inr (flt m2 (Fin MAX_DIST_TRAVEL)))
          else Inr False)"

text \<open>\<open>g.loc[1:, 'angVel']\<close> slices by index label. On an index in increasing order it is the
  rows whose label is at least 1 (the tables of the pipeline are in increasing label order);
  on an index in decreasing order the rows whose label is at most 1; on any other index the
  rows from the position of the label 1 when that label occurs exactly once, and KeyError
  otherwise.\<close>

definition loc_from_1 :: "'a frame_id_scheme list \<Rightarrow> error + 'a frame_id_scheme list" where
  "loc_from_1 g =
     (if sorted (map label g) then Inr (filter (\<lambda>r. label r \<ge> 1) g)
      else if sorted (rev (map label g)) then Inr (filter (\<lambda>r. label r \<le> 1) g)
      else if length (filter (\<lambda>r. label r = 1) g) = 1
        then Inr (dropWhile (\<lambda>r. label r \<noteq> 1) g)
        else Inl KeyError)"

definition ang_vel_keep :: "'a kin_frame_scheme list \<Rightarrow> error + bool" where
  "ang_vel_keep g =
     (case loc_from_1 g of
        Inl e \<Rightarrow> Inl e
      | Inr g1 \<Rightarrow>
          (case smooth_series_ML (map (\<lambda>r. (label r, angVel r)) g1) SM_WINDOW_FOR_FILTER of
             Inl e \<Rightarrow> Inl e
           | Inr s \<Rightarrow>
               (case nanmax (map (\<lambda>(l, v). fabs v) s) of
                  Inl e \<Rightarrow> Inl e
                | Inr m \<Rightarrow> Inr (fle m (Fin MAX_ANG_VEL)))))"

definition ang_accel_keep :: "'a kin_frame_scheme list \<Rightarrow> error + bool" where
  "ang_accel_keep g =
     (case nanmax (map (\<lambda>r. fabs (angAccel r)) g) of
        Inl e \<Rightarrow> Inl e
      | Inr m \<Rightarrow> Inr (fle m (Fin MAX_ANG_ACCEL)))"

definition displ_dist_vel_filter :: "'a kin_frame_scheme list \<Rightarrow> error + 'a kin_frame_scheme list" where
  "displ_dist_vel_filter df =
     (case grp_filter displ_dist_keep df of
        Inl e \<Rightarrow> Inl e
      | Inr f1 \<Rightarrow>
          (case grp_filter ang_vel_keep f1 of
             Inl e \<Rightarrow> Inl e
           | Inr f2 \<Rightarrow> grp_filter ang_accel_keep f2))"

section \<open>Example tables\<close>

definition trim_example :: "frame_id list" where
  "trim_example =
     map (\<lambda>(i, k). \<lparr>label = i, epochNum = k\<rparr>)
       (zip [0..<12] [1, 1, 1, 1, 1, 2, 2, 2, 2, 1, 1, 3])"

text \<open>One epoch of 104 frames, every frame with \<open>fishNum = n\<close>.\<close>

definition const_fish_epoch :: "real \<Rightarrow> raw_frame list" where
  "const_fish_epoch n =
     map (\<lambda>i. \<lparr>label = i, epochNum = 1, time = real i / 40, absx = 0, absy = 0,
                absHeadx = 0, absHeady = 0, ang = 0, fishNum = n, fishLen = 0\<rparr>) [0..<104]"

text \<open>A row of \<open>ana\<close> with the given label, epoch, \<open>deltaT\<close>, \<open>x\<close> and \<open>headx\<close>; the raw columns
  are not read by the filters.\<close>

definition ana_row :: "nat \<Rightarrow> int \<Rightarrow> fl \<Rightarrow> real \<Rightarrow> real \<Rightarrow> ana_frame" where
  "ana_row i k dt xv hx =
     \<lparr>label = i, epochNum = k, time = 0, absx = xv, absy = 0, absHeadx = hx, absHeady = 0,
      ang = 0, fishNum = 0, fishLen = 0, oriIndex = i, deltaT = dt, x_col = xv, y_col = 0,
      headx = hx, heady = 0, centeredAng = 0\<rparr>"

text \<open>Two epochs with the head ahead of the body on the x axis: the first moves right, the
  second moves left.\<close>

definition dir_example :: "ana_frame list" where
  "dir_example =
     [ana_row 0 1 NaN 0 0, ana_row 1 1 (Fin 0.025) 1 2, ana_row 2 1 (Fin 0.025) 2 4,
      ana_row 3 2 NaN 0 0, ana_row 4 2 (Fin 0.025) (- 1) 1, ana_row 5 2 (Fin 0.025) (- 2) 2]"

text \<open>A series of seven numbers under an index with gaps.\<close>

definition smooth_example :: "(nat \<times> fl) list" where
  "smooth_example = zip [10, 11, 13, 14, 15, 18, 19] (map Fin [4, 1, 7, 2, 9, 3, 8])"

text \<open>
  An epoch of \<open>n\<close> rows as the plausibility filter receives it: labels from \<open>l0\<close>, frames
  0.025 s apart, the body at rest, \<open>angVel\<close> given by \<open>av\<close> and \<open>angAccel\<close> its first difference
  over \<open>deltaT\<close>. The columns that the filter does not read are constant.
\<close>

definition kin_epoch :: "int \<Rightarrow> nat \<Rightarrow> nat \<Rightarrow> (nat \<Rightarrow> fl) \<Rightarrow> kin_frame list" where
  "kin_epoch k l0 n av =
     map (\<lambda>j. \<lparr>label = l0 + j, epochNum = k, time = real j / 40, absx = 0, absy = 0,
                absHeadx = 0, absHeady = 0, ang = 0, fishNum = 0, fishLen = 0,
                oriIndex = l0 + j, deltaT = (if j = 0 then NaN else Fin 0.025),
                x_col = 0, y_col = 0, headx = 0, heady = 0, centeredAng = 0,
                xvel = (if j = 0 then NaN else Fin 0), yvel = (if j = 0 then NaN else Fin 0),
                dist_col = (if j = 0 then NaN else Fin 0),
                displ = (if j = 0 then NaN else Fin 0),
                angVel = av j, angVelSmoothed = NaN,
                angAccel = (if j = 0 then NaN
                            else fdiv (fsub (av j) (av (j - 1))) (Fin 0.025))\<rparr>) [0..<n]"

text \<open>\<open>angVel\<close> of an epoch whose heading jumps once, between its first two frames, by 6.75:
  undefined at the first frame, 270 at the second, 0 afterwards.\<close>

definition jump_angVel :: "nat \<Rightarrow> fl" where
  "jump_angVel j = (if j = 0 then NaN else if j = 1 then Fin 270 else Fin 0)"

text \<open>The predicate of claim C2 as the specification words it: the smoothing is applied to
  the epoch's \<open>angVel\<close> without its first frame.\<close>

definition spec_ang_vel_keep :: "'a kin_frame_scheme list \<Rightarrow> error + bool" where
  "spec_ang_vel_keep g =
     (case smooth_series_ML (map (\<lambda>r. (label r, angVel r)) (tl g)) SM_WINDOW_FOR_FILTER of
        Inl e \<Rightarrow> Inl e
      | Inr s \<Rightarrow>
          (case nanmax (map (\<lambda>(l, v). fabs v) s) of
             Inl e \<Rightarrow> Inl e
           | Inr m \<Rightarrow> Inr (fle m (Fin MAX_ANG_VEL))))"

text \<open>An epoch in which no angular velocity is defined.\<close>

definition nan_angVel :: "nat \<Rightarrow> fl" where
  "nan_angVel j = NaN"



text \<open>A table of two epochs of twelve frames, each with one jump of the heading.\<close>

definition two_jump_epochs :: "kin_frame list" where
  "two_jump_epochs = kin_epoch 1 0 12 jump_angVel @ kin_epoch 2 12 12 jump_angVel"

text \<open>The result of the structural filter for two epochs: four frames each, with the labels
  the frames had in the raw table.\<close>

definition raw_row :: "nat \<Rightarrow> int \<Rightarrow> real \<Rightarrow> real \<Rightarrow> real \<Rightarrow> real \<Rightarrow> real \<Rightarrow> real \<Rightarrow> raw_frame" where
  "raw_row i k t px py hx hy a =
     \<lparr>label = i, epochNum = k, time = t, absx = px, absy = py, absHeadx = hx, absHeady = hy,
      ang = a, fishNum = 0, fishLen = 30\<rparr>"

definition raw_example :: "raw_frame list" where
  "raw_example =
     [raw_row 2 4 0.05 100 200 103 201 10,
      raw_row 3 4 0.075 101 198 104 199 12,
      raw_row 4 4 0.1 103 197 106 198 15,
      raw_row 5 4 0.125 104 197 107 198 19,
      raw_row 10 7 3.05 50 60 47 58 (- 170),
      raw_row 11 7 3.075 50 61 45 59 (- 171),
      raw_row 12 7 3.1 51 63 45 59 (- 173),
      raw_row 13 7 3.125 53 66 44 60 (- 176)]"

section \<open>Proofs\<close>

lemma set_first_seen: "set (first_seen seen ks) = set ks - set seen"
  by (induction ks arbitrary: seen) auto

lemma distinct_first_seen: "distinct (first_seen seen ks)"
  by (induction ks arbitrary: seen) (auto simp: set_first_seen)

lemma first_seen_order:
  "i < j \<Longrightarrow> j < length (first_seen seen ks) \<Longrightarrow>
   \<exists>n. first_seen seen ks ! i \<in> set (take n ks) \<and> first_seen seen ks ! j \<notin> set (take n ks)"
proof (induction ks arbitrary: seen i j)
  case Nil
  then show ?case by simp
next
  case (Cons k ks)
  show ?case
  proof (cases "k \<in> set seen")
    case True
    with Cons.prems have j: "j < length (first_seen seen ks)" by simp
    from Cons.IH[OF Cons.prems(1) j] obtain n where
      n: "first_seen seen ks ! i \<in> set (take n ks)" "first_seen seen ks ! j \<notin> set (take n ks)"
      by blast
    have "first_seen seen ks ! j \<in> set (first_seen seen ks)" using j by simp
    then have "first_seen seen ks ! j \<noteq> k" using True by (auto simp: set_first_seen)
    with n True show ?thesis by (intro exI[of _ "Suc n"]) simp
  next
    case False
    let ?K = "first_seen (k # seen) ks"
    from False Cons.prems obtain j' where j': "j = Suc j'" "j' < length ?K"
      by (cases j) auto
    have "?K ! j' \<in> set ?K" using j' by simp
    then have neq: "?K ! j' \<noteq> k" by (auto simp: set_first_seen)
    show ?thesis
    proof (cases i)
      case 0
      with False j' neq show ?thesis by (intro exI[of _ "Suc 0"]) simp
    next
      case (Suc i')
      with Cons.prems j' have "i' < j'" by simp
      from Cons.IH[OF this j'(2)] obtain n where
        "?K ! i' \<in> set (take n ks)" "?K ! j' \<notin> set (take n ks)" by blast
      with False j' Suc neq show ?thesis by (intro exI[of _ "Suc n"]) simp
    qed
  qed
qed

lemma eval_groups_Inr:
  "eval_groups P (map (\<lambda>k. (k, G k)) ks) = Inr kept \<Longrightarrow>
   kept = filter (\<lambda>k. P (G k) = Inr True) ks"
  by (induction ks arbitrary: kept) (auto split: sum.splits if_splits)

lemma eval_groups_total:
  "\<forall>k \<in> set ks. \<exists>b. P (G k) = Inr b \<Longrightarrow> \<exists>kept. eval_groups P (map (\<lambda>k. (k, G k)) ks) = Inr kept"
  by (induction ks) (auto split: sum.splits)

lemma eval_groups_Inl:
  "eval_groups P (map (\<lambda>k. (k, G k)) ks) = Inl e \<Longrightarrow> \<exists>k \<in> set ks. P (G k) = Inl e"
  by (induction ks) (auto split: sum.splits)

lemma grp_filter_Inr:
  assumes "grp_filter P df = Inr out"
  shows "out = filter (\<lambda>r. P (get_group df (epochNum r)) = Inr True) df"
proof -
  from assms obtain kept where
    k: "eval_groups P (map (\<lambda>k. (k, get_group df k)) (first_seen [] (map epochNum df))) = Inr kept"
    and out: "out = filter (\<lambda>r. epochNum r \<in> set kept) df"
    by (auto simp: grp_filter_def grp_by_epoch_def split: sum.splits)
  from eval_groups_Inr[OF k]
  have "kept = filter (\<lambda>k. P (get_group df k) = Inr True) (first_seen [] (map epochNum df))" .
  then have "\<And>r. r \<in> set df \<Longrightarrow>
      (epochNum r \<in> set kept) = (P (get_group df (epochNum r)) = Inr True)"
    by (auto simp: set_first_seen)
  with out show ?thesis by (simp cong: filter_cong)
qed

lemma get_group_nonempty: "r \<in> set df \<Longrightarrow> get_group df (epochNum r) \<noteq> []"
  by (auto simp: get_group_def filter_empty_conv)

lemma grp_filter_total:
  assumes tot: "\<And>g. g \<noteq> [] \<Longrightarrow> P g = Inr (Q g)"
  shows "grp_filter P df = Inr (filter (\<lambda>r. Q (get_group df (epochNum r))) df)"
proof -
  let ?ks = "first_seen [] (map epochNum df)"
  have "\<exists>b. P (get_group df k) = Inr b" if "k \<in> set ?ks" for k
  proof -
    from that obtain r where "r \<in> set df" "epochNum r = k"
      by (auto simp: set_first_seen)
    then have "get_group df k \<noteq> []" using get_group_nonempty by blast
    from tot[OF this] show ?thesis by blast
  qed
  then have "\<forall>k \<in> set ?ks. \<exists>b. P (get_group df k) = Inr b" by blast
  from eval_groups_total[of ?ks P "get_group df", OF this] obtain kept where
    "eval_groups P (map (\<lambda>k. (k, get_group df k)) ?ks) = Inr kept"
    by blast
  then have gf: "grp_filter P df = Inr (filter (\<lambda>r. epochNum r \<in> set kept) df)"
    by (simp add: grp_filter_def grp_by_epoch_def)
  have eq1: "filter (\<lambda>r. epochNum r \<in> set kept) df
      = filter (\<lambda>r. P (get_group df (epochNum r)) = Inr True) df"
    by (rule grp_filter_Inr[OF gf])
  have eq2: "filter (\<lambda>r. P (get_group df (epochNum r)) = Inr True) df
      = filter (\<lambda>r. Q (get_group df (epochNum r))) df"
  proof (rule filter_cong[OF refl])
    fix r assume "r \<in> set df"
    then have "get_group df (epochNum r) \<noteq> []" by (rule get_group_nonempty)
    from tot[OF this] show "(P (get_group df (epochNum r)) = Inr True)
        = Q (get_group df (epochNum r))" by simp
  qed
  show ?thesis unfolding gf eq1 eq2 ..
qed

lemma get_group_filter_key:
  "get_group (filter (\<lambda>r. Q (epochNum r)) df) k = (if Q k then get_group df k else [])"
  by (induction df) (auto simp: get_group_def)

lemma get_group_del_buf_from:
  "get_group (del_buf_from pre suf) k =
     drop (EPOCH_BUF - length (get_group pre k))
       (take (length (get_group suf k) - EPOCH_BUF) (get_group suf k))"
proof (induction suf arbitrary: pre)
  case Nil
  then show ?case by (simp add: get_group_def)
next
  case (Cons r rs)
  show ?case
  proof (cases "epochNum r = k")
    case False
    then show ?thesis using Cons.IH[of "pre @ [r]"] by (simp add: get_group_def)
  next
    case True
    define c where "c = length (get_group pre k)"
    define g where "g = get_group rs k"
    have IH: "get_group (del_buf_from (pre @ [r]) rs) k
        = drop (EPOCH_BUF - Suc c) (take (length g - EPOCH_BUF) g)"
      using Cons.IH[of "pre @ [r]"] True by (simp add: get_group_def c_def g_def)
    have grp: "get_group (r # rs) k = r # g"
      using True by (simp add: get_group_def g_def)
    have hd_eq: "get_group (del_buf_from pre (r # rs)) k
        = (if length g \<ge> EPOCH_BUF \<and> c \<ge> EPOCH_BUF then [r] else [])
          @ get_group (del_buf_from (pre @ [r]) rs) k"
      using True by (simp add: get_group_def g_def c_def)
    have "(if length g \<ge> EPOCH_BUF \<and> c \<ge> EPOCH_BUF then [r] else [])
          @ drop (EPOCH_BUF - Suc c) (take (length g - EPOCH_BUF) g)
        = drop (EPOCH_BUF - c) (take (length (r # g) - EPOCH_BUF) (r # g))"
    proof (cases "length g \<ge> EPOCH_BUF")
      case le: True
      then have s: "length (r # g) - EPOCH_BUF = Suc (length g - EPOCH_BUF)"
        by (simp add: Suc_diff_le)
      show ?thesis
      proof (cases "c \<ge> EPOCH_BUF")
        case True
        with le s show ?thesis by simp
      next
        case False
        then have "EPOCH_BUF - c = Suc (EPOCH_BUF - Suc c)" by simp
        with le s False show ?thesis by simp
      qed
    next
      case False
      then have "length (r # g) - EPOCH_BUF = 0" "length g - EPOCH_BUF = 0" by simp_all
      with False show ?thesis by simp
    qed
    with IH hd_eq grp show ?thesis by (simp add: c_def)
  qed
qed

lemma upt_add_Cons: "[i..<i + Suc n] = i # [Suc i..<Suc i + n]"
  by (simp add: upt_conv_Cons del: upt_Suc)

lemma del_buf_from_mask:
  "map fst (filter snd (zip suf
      (map (\<lambda>i. length (filter (\<lambda>r. epochNum r = epochNum ((pre @ suf) ! i)) (drop (Suc i) (pre @ suf))) \<ge> EPOCH_BUF
               \<and> length (filter (\<lambda>r. epochNum r = epochNum ((pre @ suf) ! i)) (take i (pre @ suf))) \<ge> EPOCH_BUF)
         [length pre..<length pre + length suf])))
   = del_buf_from pre suf"
proof (induction suf arbitrary: pre)
  case Nil
  then show ?case by simp
next
  case (Cons r rs)
  let ?m = "\<lambda>xs i. length (filter (\<lambda>r. epochNum r = epochNum (xs ! i)) (drop (Suc i) xs)) \<ge> EPOCH_BUF
               \<and> length (filter (\<lambda>r. epochNum r = epochNum (xs ! i)) (take i xs)) \<ge> EPOCH_BUF"
  have app: "pre @ r # rs = (pre @ [r]) @ rs" by simp
  have upt: "[length pre..<length pre + length (r # rs)]
      = length pre # [length (pre @ [r])..<length (pre @ [r]) + length rs]"
    using upt_add_Cons[of "length pre" "length rs"] by simp
  have IH: "map fst (filter snd (zip rs
      (map (?m (pre @ r # rs)) [length (pre @ [r])..<length (pre @ [r]) + length rs])))
     = del_buf_from (pre @ [r]) rs"
    using Cons.IH[of "pre @ [r]"] by (simp only: app)
  have hd: "?m (pre @ r # rs) (length pre)
      = (length (filter (\<lambda>q. epochNum q = epochNum r) rs) \<ge> EPOCH_BUF
         \<and> length (filter (\<lambda>q. epochNum q = epochNum r) pre) \<ge> EPOCH_BUF)"
    by simp
  have "map fst (filter snd (zip (r # rs) (map (?m (pre @ r # rs)) [length pre..<length pre + length (r # rs)])))
      = (if ?m (pre @ r # rs) (length pre) then [r] else [])
        @ map fst (filter snd (zip rs
            (map (?m (pre @ r # rs)) [length (pre @ [r])..<length (pre @ [r]) + length rs])))"
    unfolding upt by simp
  also have "\<dots> = del_buf_from pre (r # rs)"
    unfolding IH hd by simp
  finally show ?case .
qed

lemma del_buf_eq: "del_buf df = del_buf_from [] df"
proof -
  have "zip (cumcount_desc df) (cumcount df)
      = map (\<lambda>i. (length (filter (\<lambda>r. epochNum r = epochNum (df ! i)) (drop (Suc i) df)),
                  length (filter (\<lambda>r. epochNum r = epochNum (df ! i)) (take i df)))) [0..<length df]"
    by (simp add: cumcount_def cumcount_desc_def zip_map_map zip_same_conv_map)
  then show ?thesis
    using del_buf_from_mask[of df "[]"]
    by (simp add: del_buf_def boolean_mask_def comp_def)
qed

lemma get_group_del_buf:
  "get_group (del_buf df) k
     = take (length (get_group df k) - 2 * EPOCH_BUF) (drop EPOCH_BUF (get_group df k))"
proof -
  have "get_group (del_buf_from [] df) k
      = drop EPOCH_BUF (take (length (get_group df k) - EPOCH_BUF) (get_group df k))"
    using get_group_del_buf_from[of "[]" df k] by (simp add: get_group_def)
  then show ?thesis by (simp add: del_buf_eq drop_take mult_2)
qed

subsection \<open>Trim step of the structural filter\<close>

text \<open>
  Claim C5. For every table and every epoch \<open>k\<close> with \<open>L\<close> frames, the trim step of
  \<open>raw_filter\<close> (before the duration and subject filter) leaves no frame of the epoch when
  \<open>L \<le> 2 * EPOCH_BUF\<close>, and otherwise exactly the \<open>L - 2 * EPOCH_BUF\<close> interior frames: the
  epoch is its first \<open>EPOCH_BUF\<close> frames, the retained frames, and its last \<open>EPOCH_BUF\<close>
  frames, in this order. \<open>EPOCH_BUF\<close> is 2.
\<close>

theorem trim_keeps_interior:
  "EPOCH_BUF = 2 \<and>
   (length (get_group df k) \<le> 2 * EPOCH_BUF \<longrightarrow> get_group (del_buf df) k = []) \<and>
   (length (get_group df k) > 2 * EPOCH_BUF \<longrightarrow>
      get_group (del_buf df) k
        = take (length (get_group df k) - 2 * EPOCH_BUF) (drop EPOCH_BUF (get_group df k)) \<and>
      length (get_group (del_buf df) k) = length (get_group df k) - 2 * EPOCH_BUF \<and>
      (\<exists>a b. length a = EPOCH_BUF \<and> length b = EPOCH_BUF \<and>
             get_group df k = a @ get_group (del_buf df) k @ b))"
proof -
  let ?g = "get_group df k"
  let ?t = "get_group (del_buf df) k"
  have t: "?t = take (length ?g - 2 * EPOCH_BUF) (drop EPOCH_BUF ?g)"
    by (rule get_group_del_buf)
  have short: "length ?g \<le> 2 * EPOCH_BUF \<Longrightarrow> ?t = []"
    unfolding t by simp
  have long: "\<exists>a b. length a = EPOCH_BUF \<and> length b = EPOCH_BUF \<and> ?g = a @ ?t @ b"
    if "length ?g > 2 * EPOCH_BUF"
  proof (intro exI conjI)
    show "?g = take EPOCH_BUF ?g @ ?t @ drop (length ?g - EPOCH_BUF) ?g"
    proof -
      have "drop EPOCH_BUF ?g = ?t @ drop (length ?g - 2 * EPOCH_BUF) (drop EPOCH_BUF ?g)"
        unfolding t by (simp only: append_take_drop_id)
      moreover have "length ?g - 2 * EPOCH_BUF + EPOCH_BUF = length ?g - EPOCH_BUF"
        using that by simp
      ultimately have "drop EPOCH_BUF ?g = ?t @ drop (length ?g - EPOCH_BUF) ?g"
        by (simp only: drop_drop)
      then show ?thesis
        by (metis append_take_drop_id)
    qed
    show "length (take EPOCH_BUF ?g) = EPOCH_BUF" using that by simp
    show "length (drop (length ?g - EPOCH_BUF) ?g) = EPOCH_BUF" using that by simp
  qed
  have len: "length ?t = length ?g - 2 * EPOCH_BUF"
    unfolding t by simp
  show ?thesis using t short long len by (simp add: EPOCH_BUF_def)
qed

theorem trim_keeps_interior_witness:
  "length (get_group trim_example 2) \<le> 2 * EPOCH_BUF \<and>
   get_group (del_buf trim_example) 2 = [] \<and>
   length (get_group trim_example 1) > 2 * EPOCH_BUF \<and>
   get_group (del_buf trim_example) 1
     = [\<lparr>label = 2, epochNum = 1\<rparr>, \<lparr>label = 3, epochNum = 1\<rparr>, \<lparr>label = 4, epochNum = 1\<rparr>] \<and>
   length (get_group (del_buf trim_example) 1) = 3"
proof -
  have g2: "length (get_group trim_example 2) \<le> 2 * EPOCH_BUF"
    by (simp add: trim_example_def get_group_def EPOCH_BUF_def upt_rec)
  have g1: "length (get_group trim_example 1) > 2 * EPOCH_BUF"
    by (simp add: trim_example_def get_group_def EPOCH_BUF_def upt_rec)
  have v1: "take (length (get_group trim_example 1) - 2 * EPOCH_BUF)
        (drop EPOCH_BUF (get_group trim_example 1))
      = [\<lparr>label = 2, epochNum = 1\<rparr>, \<lparr>label = 3, epochNum = 1\<rparr>, \<lparr>label = 4, epochNum = 1\<rparr>]"
    by (simp add: trim_example_def get_group_def EPOCH_BUF_def upt_rec)
  from trim_keeps_interior[of trim_example 2] g2
  have "get_group (del_buf trim_example) 2 = []" by blast
  moreover from trim_keeps_interior[of trim_example 1] g1
  have "get_group (del_buf trim_example) 1
      = take (length (get_group trim_example 1) - 2 * EPOCH_BUF)
          (drop EPOCH_BUF (get_group trim_example 1))" by blast
  ultimately show ?thesis using g1 g2 v1 by simp
qed

lemma nanmax_Fin:
  "xs \<noteq> [] \<Longrightarrow> foldr nan_max2 (map Fin xs) NaN = Fin (Max (set xs))"
proof (induction xs)
  case Nil
  then show ?case by simp
next
  case (Cons x xs)
  show ?case
  proof (cases "xs = []")
    case True
    then show ?thesis by simp
  next
    case False
    with Cons.IH have "foldr nan_max2 (map Fin xs) NaN = Fin (Max (set xs))" by simp
    with False show ?thesis by (simp add: max_def)
  qed
qed

lemma raw_keep_eq:
  "raw_keep g = Inr (MIN_DUR \<le> real (length g) \<and> g \<noteq> [] \<and> Max (fishNum ` set g) < MAX_FISH)"
proof (cases "MIN_DUR \<le> real (length g)")
  case False
  then show ?thesis by (simp add: raw_keep_def)
next
  case True
  then have ne: "g \<noteq> []" by (auto simp: MIN_DUR_def FRAM_RATE_def)
  then have "foldr nan_max2 (map Fin (map fishNum g)) NaN = Fin (Max (set (map fishNum g)))"
    by (intro nanmax_Fin) simp
  then show ?thesis using True ne by (simp add: raw_keep_def nanmax_def comp_def)
qed

lemma raw_filter_eq:
  "raw_filter df = Inr (filter (\<lambda>r. MIN_DUR \<le> real (length (get_group (del_buf df) (epochNum r)))
       \<and> get_group (del_buf df) (epochNum r) \<noteq> []
       \<and> Max (fishNum ` set (get_group (del_buf df) (epochNum r))) < MAX_FISH) (del_buf df))"
  unfolding raw_filter_def
  by (rule grp_filter_total) (rule raw_keep_eq)

lemma get_group_filter_group:
  "get_group (filter (\<lambda>r. Q (get_group df (epochNum r))) df) k
     = (if Q (get_group df k) then get_group df k else [])"
  using get_group_filter_key[of "\<lambda>k. Q (get_group df k)" df k] by simp

lemma set_del_buf: "set (del_buf df) \<subseteq> set df"
  unfolding del_buf_def boolean_mask_def
  by (auto dest: set_zip_leftD)

lemma get_group_all: "\<forall>r \<in> set df. epochNum r = k \<Longrightarrow> get_group df k = df"
  by (simp add: get_group_def)

lemma const_fish_epoch_facts:
  "length (const_fish_epoch n) = 104"
  "\<forall>r \<in> set (const_fish_epoch n). epochNum r = 1"
  "\<forall>r \<in> set (const_fish_epoch n). fishNum r = n"
  by (simp_all add: const_fish_epoch_def)

lemma const_fish_del_buf:
  "get_group (del_buf (const_fish_epoch n)) 1 = del_buf (const_fish_epoch n)"
  "length (del_buf (const_fish_epoch n)) = 100"
proof -
  have k: "\<forall>r \<in> set (del_buf (const_fish_epoch n)). epochNum r = 1"
    using set_del_buf[of "const_fish_epoch n"] const_fish_epoch_facts(2)[of n] by blast
  show g: "get_group (del_buf (const_fish_epoch n)) 1 = del_buf (const_fish_epoch n)"
    by (rule get_group_all[OF k])
  have "length (get_group (del_buf (const_fish_epoch n)) 1) = 100"
    unfolding get_group_del_buf
    by (simp add: get_group_all[OF const_fish_epoch_facts(2)] const_fish_epoch_facts(1) EPOCH_BUF_def)
  then show "length (del_buf (const_fish_epoch n)) = 100" by (simp add: g)
qed

lemma image_const: "xs \<noteq> [] \<Longrightarrow> \<forall>r \<in> set xs. f r = c \<Longrightarrow> f ` set xs = {c}"
  by (cases xs) auto

lemma const_fish_del_buf_fishNum:
  "fishNum ` set (del_buf (const_fish_epoch n)) = {n}"
proof (rule image_const)
  show "del_buf (const_fish_epoch n) \<noteq> []" using const_fish_del_buf(2)[of n] by auto
  show "\<forall>r \<in> set (del_buf (const_fish_epoch n)). fishNum r = n"
    using set_del_buf[of "const_fish_epoch n"] const_fish_epoch_facts(3)[of n] by blast
qed

subsection \<open>Second step of the structural filter\<close>

text \<open>
  Claim C3, as amended. \<open>raw_filter\<close> always returns, and an already-trimmed epoch survives
  its second step if and only if its remaining frame count is at least \<open>MIN_DUR\<close>
  (2.5 s at 40 Hz, that is 100 frames) and its maximum \<open>fishNum\<close> is strictly less than
  \<open>MAX_FISH\<close> (1); a surviving epoch keeps all its trimmed frames, any other epoch none.
\<close>

theorem raw_filter_duration_and_fish:
  "MIN_DUR = 100 \<and> MAX_FISH = 1 \<and>
   (\<exists>out. raw_filter df = Inr out \<and>
      (\<forall>k. get_group out k =
         (if real (length (get_group (del_buf df) k)) \<ge> MIN_DUR
             \<and> get_group (del_buf df) k \<noteq> []
             \<and> Max (fishNum ` set (get_group (del_buf df) k)) < MAX_FISH
          then get_group (del_buf df) k else [])))"
proof -
  have "MIN_DUR = 100" "MAX_FISH = 1" by (simp_all add: MIN_DUR_def FRAM_RATE_def MAX_FISH_def)
  moreover have "\<exists>out. raw_filter df = Inr out \<and>
      (\<forall>k. get_group out k =
         (if real (length (get_group (del_buf df) k)) \<ge> MIN_DUR
             \<and> get_group (del_buf df) k \<noteq> []
             \<and> Max (fishNum ` set (get_group (del_buf df) k)) < MAX_FISH
          then get_group (del_buf df) k else []))"
    using raw_filter_eq[of df]
      get_group_filter_group[of "\<lambda>g. MIN_DUR \<le> real (length g) \<and> g \<noteq> []
            \<and> Max (fishNum ` set g) < MAX_FISH" "del_buf df"]
    by simp
  ultimately show ?thesis by blast
qed

text \<open>Witness for C3: an epoch of 104 frames with \<open>fishNum = 0\<close> keeps its 100 interior
  frames.\<close>

theorem raw_filter_duration_and_fish_witness:
  "\<exists>out. raw_filter (const_fish_epoch 0) = Inr out \<and> length (get_group out 1) = 100"
proof -
  let ?d = "del_buf (const_fish_epoch 0)"
  from raw_filter_duration_and_fish[of "const_fish_epoch 0"] obtain out where
    out: "raw_filter (const_fish_epoch 0) = Inr out"
    and grp: "get_group out 1 =
         (if real (length (get_group ?d 1)) \<ge> MIN_DUR \<and> get_group ?d 1 \<noteq> []
             \<and> Max (fishNum ` set (get_group ?d 1)) < MAX_FISH
          then get_group ?d 1 else [])"
    by blast
  have ne: "?d \<noteq> []" using const_fish_del_buf(2)[of 0] by auto
  have "fishNum ` set ?d = {0}" by (rule const_fish_del_buf_fishNum)
  then have "Max (fishNum ` set ?d) < MAX_FISH" by (simp add: MAX_FISH_def)
  with grp ne have "get_group out 1 = ?d"
    by (simp add: const_fish_del_buf MIN_DUR_def FRAM_RATE_def)
  with out show ?thesis by (simp add: const_fish_del_buf)
qed

text \<open>
  Counterexample to claim C3 as stated: an epoch of 104 frames that holds exactly one detected
  subject in every frame (\<open>fishNum = 1\<close>) has 100 frames after the trim, and the structural
  filter drops it, since its maximum \<open>fishNum\<close> is not strictly less than 1.
\<close>

theorem single_subject_epoch_dropped:
  "map fishNum (const_fish_epoch 1) = replicate 104 1 \<and>
   map epochNum (const_fish_epoch 1) = replicate 104 1 \<and>
   length (del_buf (const_fish_epoch 1)) = 100 \<and>
   raw_filter (const_fish_epoch 1) = Inr []"
proof -
  let ?d = "del_buf (const_fish_epoch 1)"
  have ne: "?d \<noteq> []" using const_fish_del_buf(2)[of 1] by auto
  have one: "fishNum ` set ?d = {1}" by (rule const_fish_del_buf_fishNum)
  have g: "get_group ?d (epochNum r) = ?d" if "r \<in> set ?d" for r
    using that set_del_buf[of "const_fish_epoch 1"] const_fish_epoch_facts(2)[of 1]
      const_fish_del_buf(1)[of 1] by auto
  have "filter (\<lambda>r. MIN_DUR \<le> real (length (get_group ?d (epochNum r)))
       \<and> get_group ?d (epochNum r) \<noteq> []
       \<and> Max (fishNum ` set (get_group ?d (epochNum r))) < MAX_FISH) ?d = []"
    unfolding filter_empty_conv using g one by (simp add: MAX_FISH_def)
  then have "raw_filter (const_fish_epoch 1) = Inr []"
    unfolding raw_filter_eq by simp
  moreover have "map fishNum (const_fish_epoch 1) = replicate 104 1"
    "map epochNum (const_fish_epoch 1) = replicate 104 1"
    by (simp_all add: const_fish_epoch_def comp_def map_replicate_const)
  ultimately show ?thesis using const_fish_del_buf(2)[of 1] by simp
qed

lemma subseq_boolean_mask: "subseq (boolean_mask df m) df"
proof (induction df arbitrary: m)
  case Nil
  then show ?case by (simp add: boolean_mask_def)
next
  case (Cons r rs)
  show ?case
  proof (cases m)
    case Nil
    then show ?thesis by (simp add: boolean_mask_def)
  next
    case (Cons b bs)
    with Cons.IH[of bs] show ?thesis
      by (cases b) (auto simp: boolean_mask_def intro: list_emb_Cons)
  qed
qed

lemma subseq_del_buf: "subseq (del_buf df) df"
  unfolding del_buf_def by (rule subseq_boolean_mask)

lemma grp_filter_subseq: "grp_filter P df = Inr out \<Longrightarrow> subseq out df"
  by (auto simp: grp_filter_def split: sum.splits)

lemma gap_keep_eq:
  "g \<noteq> [] \<Longrightarrow> gap_keep g = Inr (fle (foldr nan_max2 (map deltaT g) NaN) (Fin MAX_DELTA_T))"
  by (simp add: gap_keep_def nanmax_def)

lemma dir_keep_eq:
  "g \<noteq> [] \<Longrightarrow> dir_keep g = Inr ((mean (map headx g) - mean (map x_col g)) * x_col (last g) \<ge> 0)"
  by (simp add: dir_keep_def)

lemma dur_y_x_filter_eq:
  "dur_y_x_filter df =
     Inr (filter (\<lambda>r. (mean (map headx (get_group
                (filter (\<lambda>r. fle (foldr nan_max2 (map deltaT (get_group df (epochNum r))) NaN)
                            (Fin MAX_DELTA_T)) df) (epochNum r)))
              - mean (map x_col (get_group
                (filter (\<lambda>r. fle (foldr nan_max2 (map deltaT (get_group df (epochNum r))) NaN)
                            (Fin MAX_DELTA_T)) df) (epochNum r))))
            * x_col (last (get_group
                (filter (\<lambda>r. fle (foldr nan_max2 (map deltaT (get_group df (epochNum r))) NaN)
                            (Fin MAX_DELTA_T)) df) (epochNum r))) \<ge> 0)
          (filter (\<lambda>r. fle (foldr nan_max2 (map deltaT (get_group df (epochNum r))) NaN)
                            (Fin MAX_DELTA_T)) df))"
proof -
  have f1: "grp_filter gap_keep df
      = Inr (filter (\<lambda>r. fle (foldr nan_max2 (map deltaT (get_group df (epochNum r))) NaN)
                            (Fin MAX_DELTA_T)) df)"
    by (rule grp_filter_total[of gap_keep
          "\<lambda>g. fle (foldr nan_max2 (map deltaT g) NaN) (Fin MAX_DELTA_T)"]) (rule gap_keep_eq)
  show ?thesis
    unfolding dur_y_x_filter_def f1 sum.case
    by (rule grp_filter_total[of dir_keep
          "\<lambda>g. (mean (map headx g) - mean (map x_col g)) * x_col (last g) \<ge> 0"])
       (rule dir_keep_eq)
qed

lemma get_group_empty_iff: "get_group df k = [] \<longleftrightarrow> k \<notin> epochNum ` set df"
  by (auto simp: get_group_def filter_empty_conv)

subsection \<open>Direction-consistency filter\<close>

text \<open>
  Claim C7. \<open>dur_y_x_filter\<close> always returns, and every epoch that reaches its
  direction-consistency filter (an epoch of the table \<open>f1\<close> left by the gap filter) is kept,
  whole, if and only if the product of (mean of \<open>headx\<close> over the epoch minus mean of \<open>x\<close>
  over the epoch) and the \<open>x\<close> of the epoch's last frame is at least 0; otherwise no frame of
  it is kept.
\<close>

theorem direction_filter_keeps_iff:
  "\<exists>f1 out. grp_filter gap_keep df = Inr f1 \<and> dur_y_x_filter df = Inr out \<and>
     (\<forall>k. get_group f1 k \<noteq> [] \<longrightarrow>
        get_group out k =
          (if (mean (map headx (get_group f1 k)) - mean (map x_col (get_group f1 k)))
                * x_col (last (get_group f1 k)) \<ge> 0
           then get_group f1 k else []))"
proof -
  let ?f1 = "filter (\<lambda>r. fle (foldr nan_max2 (map deltaT (get_group df (epochNum r))) NaN)
                            (Fin MAX_DELTA_T)) df"
  let ?Q = "\<lambda>g. (mean (map headx g) - mean (map x_col g)) * x_col (last g) \<ge> 0"
  have f1: "grp_filter gap_keep df = Inr ?f1"
    by (rule grp_filter_total[of gap_keep
          "\<lambda>g. fle (foldr nan_max2 (map deltaT g) NaN) (Fin MAX_DELTA_T)"]) (rule gap_keep_eq)
  have out: "dur_y_x_filter df = Inr (filter (\<lambda>r. ?Q (get_group ?f1 (epochNum r))) ?f1)"
    unfolding dur_y_x_filter_def f1 sum.case
    by (rule grp_filter_total[of dir_keep ?Q]) (rule dir_keep_eq)
  have "get_group (filter (\<lambda>r. ?Q (get_group ?f1 (epochNum r))) ?f1) k
      = (if ?Q (get_group ?f1 k) then get_group ?f1 k else [])" for k
    by (rule get_group_filter_group[of ?Q ?f1 k])
  with f1 out show ?thesis by blast
qed

lemma dir_example_gap: "grp_filter gap_keep dir_example = Inr dir_example"
  by (simp add: grp_filter_def grp_by_epoch_def get_group_def gap_keep_def nanmax_def
      dir_example_def ana_row_def MAX_DELTA_T_def)

text \<open>Witness for C7: of two epochs that pass the gap filter, the one moving right with the
  head ahead is kept and the one moving left with the head to the right is dropped.\<close>

theorem direction_filter_keeps_iff_witness:
  "\<exists>out. dur_y_x_filter dir_example = Inr out \<and>
     get_group dir_example 1 \<noteq> [] \<and> get_group out 1 = get_group dir_example 1 \<and>
     get_group dir_example 2 \<noteq> [] \<and> get_group out 2 = []"
proof -
  from direction_filter_keeps_iff[of dir_example] dir_example_gap obtain out where
    out: "dur_y_x_filter dir_example = Inr out"
    and grp: "\<And>k. get_group dir_example k \<noteq> [] \<Longrightarrow>
        get_group out k =
          (if (mean (map headx (get_group dir_example k)) - mean (map x_col (get_group dir_example k)))
                * x_col (last (get_group dir_example k)) \<ge> 0
           then get_group dir_example k else [])"
    by auto
  have g1: "get_group dir_example 1
      = [ana_row 0 1 NaN 0 0, ana_row 1 1 (Fin 0.025) 1 2, ana_row 2 1 (Fin 0.025) 2 4]"
    and g2: "get_group dir_example 2
      = [ana_row 3 2 NaN 0 0, ana_row 4 2 (Fin 0.025) (- 1) 1, ana_row 5 2 (Fin 0.025) (- 2) 2]"
    by (simp_all add: dir_example_def get_group_def ana_row_def)
  have "get_group out 1 = get_group dir_example 1"
    using grp[of 1] unfolding g1 by (simp add: ana_row_def mean_def)
  moreover have "get_group out 2 = []"
    using grp[of 2] unfolding g2 by (simp add: ana_row_def mean_def)
  ultimately show ?thesis using out g1 g2 by simp
qed

lemma fsum_Fin: "fsum (map Fin xs) = Fin (sum_list xs)"
  by (induction xs) (simp_all add: fsum_def)

lemma length_np_cumsum_from: "length (np_cumsum_from acc vs) = length vs"
  by (induction vs arbitrary: acc) simp_all

lemma np_cumsum_from_Fin_nth:
  "i < length xs \<Longrightarrow>
   np_cumsum_from (Fin c) (map Fin xs) ! i = Fin (c + sum_list (take (Suc i) xs))"
proof (induction xs arbitrary: c i)
  case Nil
  then show ?case by simp
next
  case (Cons x xs)
  show ?case
  proof (cases i)
    case 0
    then show ?thesis by simp
  next
    case (Suc j)
    with Cons.prems have "j < length xs" by simp
    from Cons.IH[OF this, of "c + x"] Suc show ?thesis by (simp add: add.assoc)
  qed
qed

lemma length_pd_cumsum: "length (pd_cumsum a) = length a"
  by (simp add: pd_cumsum_def length_np_cumsum_from)

lemma pd_cumsum_Fin_nth:
  assumes "i < length xs"
  shows "pd_cumsum (map Fin xs) ! i = Fin (sum_list (take (Suc i) xs))"
proof -
  have m: "map (\<lambda>v. if v = NaN then Fin 0 else v) (map Fin xs) = map Fin xs"
    by simp
  have "pd_cumsum (map Fin xs) ! i
      = (\<lambda>(v, s). if v = NaN then NaN else s)
          (map Fin xs ! i, np_cumsum_from (Fin 0) (map Fin xs) ! i)"
    unfolding pd_cumsum_def m using assms by (simp add: length_np_cumsum_from)
  also have "\<dots> = np_cumsum_from (Fin 0) (map Fin xs) ! i"
    using assms by simp
  finally show ?thesis using np_cumsum_from_Fin_nth[OF assms, of 0] by simp
qed

lemma length_every_other: "length (every_other vs) = (length vs + 1) div 2"
  by (induction vs rule: every_other.induct) simp_all

lemma every_other_nth:
  "i < (length vs + 1) div 2 \<Longrightarrow> every_other vs ! i = vs ! (2 * i)"
proof (induction vs arbitrary: i rule: every_other.induct)
  case 1
  then show ?case by simp
next
  case (2 v)
  then show ?case by simp
next
  case (3 v w vs)
  then show ?case by (cases i) simp_all
qed

lemma filter_odd_upt: "filter odd [1..<n] = map (\<lambda>i. 2 * i + 1) [0..<n div 2]"
proof (induction n)
  case 0
  then show ?case by simp
next
  case (Suc n)
  show ?case
  proof (cases "n = 0")
    case True
    then show ?thesis by simp
  next
    case False
    then have upt: "[1..<Suc n] = [1..<n] @ [n]" by simp
    show ?thesis
    proof (cases "odd n")
      case True
      then have "Suc n div 2 = Suc (n div 2)" "2 * (n div 2) + 1 = n"
        by (auto elim: oddE)
      with Suc.IH True show ?thesis unfolding upt by simp
    next
      case False
      then have "Suc n div 2 = n div 2" by (auto elim: evenE)
      with Suc.IH False show ?thesis unfolding upt by simp
    qed
  qed
qed

lemma series_div_length: "series_div s r = Inr q \<Longrightarrow> length q = length s"
  by (auto simp: series_div_def split: if_splits)

lemma series_div_error: "series_div s r = Inl e \<Longrightarrow> e = ValueError"
  by (auto simp: series_div_def split: if_splits)

lemma convolve_length:
  "convolve_valid_ones a W = Inr c \<Longrightarrow> length a < W \<Longrightarrow> length c = W - length a + 1"
  by (auto simp: convolve_valid_ones_def split: if_splits)

lemma convolve_error: "convolve_valid_ones a W = Inl e \<Longrightarrow> e = ValueError"
  by (auto simp: convolve_valid_ones_def split: if_splits)

lemma smooth_short_fails:
  assumes "length a < W"
  shows "smooth_series_ML a W = Inl ValueError"
proof (cases "convolve_valid_ones (map snd a) W")
  case (Inl e)
  then show ?thesis using convolve_error[OF Inl] by (simp add: smooth_series_ML_def)
next
  case (Inr c)
  with assms have lc: "length c = W - length a + 1"
    using convolve_length[OF Inr] by simp
  let ?r = "filter odd [1..<W - 1]"
  let ?s1 = "every_other (pd_cumsum (take (W - 1) (map snd a)))"
  let ?s2 = "every_other (pd_cumsum (take (W - 1) (rev (map snd a))))"
  show ?thesis
  proof (cases "series_div ?s1 ?r")
    case e1: (Inl e)
    then show ?thesis using Inr series_div_error[OF e1]
      by (simp add: smooth_series_ML_def Let_def)
  next
    case r1: (Inr start)
    show ?thesis
    proof (cases "series_div ?s2 ?r")
      case e2: (Inl e)
      then show ?thesis using Inr r1 series_div_error[OF e2]
        by (simp add: smooth_series_ML_def Let_def)
    next
      case r2: (Inr stop)
      have "length start = (length a + 1) div 2" "length stop = (length a + 1) div 2"
        using series_div_length[OF r1] series_div_length[OF r2] assms
        by (simp_all add: length_every_other length_pd_cumsum)
      then have "length (start @ map (\<lambda>v. fdiv v (Fin (real W))) c @ rev stop) \<noteq> length a"
        using lc assms by simp
      then show ?thesis using Inr r1 r2
        by (simp add: smooth_series_ML_def Let_def)
    qed
  qed
qed

lemma length_filter_odd: "length (filter odd [1..<n]) = n div 2"
  unfolding filter_odd_upt by simp

lemma smooth_ok:
  assumes W: "W = 2 * h + 1" and len: "W \<le> length a"
  shows "smooth_series_ML a W =
     Inr (zip (map fst a)
       (map (\<lambda>(v, d). fdiv v (Fin (real d)))
            (zip (every_other (pd_cumsum (take (2 * h) (map snd a)))) (map (\<lambda>i. 2 * i + 1) [0..<h]))
        @ map (\<lambda>v. fdiv v (Fin (real W)))
            (map (\<lambda>j. fsum (take W (drop j (map snd a)))) [0..<length a - W + 1])
        @ rev (map (\<lambda>(v, d). fdiv v (Fin (real d)))
            (zip (every_other (pd_cumsum (take (2 * h) (rev (map snd a))))) (map (\<lambda>i. 2 * i + 1) [0..<h])))))"
proof -
  define S where "S = map (\<lambda>(v, d). fdiv v (Fin (real d)))
            (zip (every_other (pd_cumsum (take (2 * h) (map snd a)))) (map (\<lambda>i. 2 * i + 1) [0..<h]))"
  define T where "T = map (\<lambda>(v, d). fdiv v (Fin (real d)))
            (zip (every_other (pd_cumsum (take (2 * h) (rev (map snd a))))) (map (\<lambda>i. 2 * i + 1) [0..<h]))"
  define C where "C = map (\<lambda>j. fsum (take W (drop j (map snd a)))) [0..<length a - W + 1]"
  have ne: "a \<noteq> []" "W \<noteq> 0" using W len by auto
  have conv: "convolve_valid_ones (map snd a) W = Inr C"
    using ne len by (simp add: convolve_valid_ones_def C_def)
  have W1: "W - 1 = 2 * h" using W by simp
  have r: "filter odd [1..<2 * h] = map (\<lambda>i. 2 * i + 1) [0..<h]"
    unfolding filter_odd_upt by simp
  have l1: "length (every_other (pd_cumsum (take (2 * h) (map snd a)))) = h"
    using W len by (simp add: length_every_other length_pd_cumsum)
  have l2: "length (every_other (pd_cumsum (take (2 * h) (rev (map snd a))))) = h"
    using W len by (simp add: length_every_other length_pd_cumsum)
  have d1: "series_div (every_other (pd_cumsum (take (2 * h) (map snd a)))) (map (\<lambda>i. 2 * i + 1) [0..<h])
      = Inr S"
    unfolding series_div_def S_def using l1 by simp
  have d2: "series_div (every_other (pd_cumsum (take (2 * h) (rev (map snd a))))) (map (\<lambda>i. 2 * i + 1) [0..<h])
      = Inr T"
    unfolding series_div_def T_def using l2 by simp
  have tot: "length (S @ map (\<lambda>v. fdiv v (Fin (real W))) C @ rev T) = length a"
    using W len l1 l2 by (simp add: S_def T_def C_def)
  have "smooth_series_ML a W = Inr (zip (map fst a) (S @ map (\<lambda>v. fdiv v (Fin (real W))) C @ rev T))"
    by (simp only: smooth_series_ML_def conv sum.case Let_def W1 r d1 d2 tot) simp
  then show ?thesis unfolding S_def T_def C_def .
qed

lemma edge_mean_nth:
  assumes j: "j < h" and len: "2 * h \<le> length xs"
  shows "map (\<lambda>(v, d). fdiv v (Fin (real d)))
            (zip (every_other (pd_cumsum (take (2 * h) (map Fin xs)))) (map (\<lambda>i. 2 * i + 1) [0..<h])) ! j
         = Fin (sum_list (take (2 * j + 1) xs) / real (2 * j + 1))"
proof -
  let ?c = "pd_cumsum (take (2 * h) (map Fin xs))"
  have lc: "length ?c = 2 * h" using len by (simp add: length_pd_cumsum)
  have le: "length (every_other ?c) = h" by (simp add: length_every_other lc)
  have "every_other ?c ! j = ?c ! (2 * j)"
    using j by (intro every_other_nth) (simp add: lc)
  also have "\<dots> = pd_cumsum (map Fin (take (2 * h) xs)) ! (2 * j)"
    by (simp add: take_map)
  also have "\<dots> = Fin (sum_list (take (Suc (2 * j)) (take (2 * h) xs)))"
    using j len by (intro pd_cumsum_Fin_nth) simp
  also have "take (Suc (2 * j)) (take (2 * h) xs) = take (2 * j + 1) xs"
    using j by (simp add: min_def)
  finally have e: "every_other ?c ! j = Fin (sum_list (take (2 * j + 1) xs))" .
  show ?thesis using j le e by simp
qed

lemma window_mean_nth:
  assumes "j < length xs - W + 1" "W \<noteq> 0"
  shows "map (\<lambda>v. fdiv v (Fin (real W)))
           (map (\<lambda>j. fsum (take W (drop j (map Fin xs)))) [0..<length xs - W + 1]) ! j
         = Fin (sum_list (take W (drop j xs)) / real W)"
proof -
  have "fsum (take W (drop j (map Fin xs))) = Fin (sum_list (take W (drop j xs)))"
    by (simp add: drop_map take_map fsum_Fin)
  then show ?thesis using assms by (simp del: upt_Suc)
qed

lemma sum_list_take_rev:
  "m \<le> length xs \<Longrightarrow> sum_list (take m (rev xs)) = sum_list (drop (length xs - m) (xs::real list))"
  by (simp add: take_rev)

subsection \<open>Smoothing function\<close>

text \<open>
  Claim C1. For every sequence \<open>a\<close> of numbers \<open>xs\<close> (with any index labels) and every odd
  window \<open>W\<close> with \<open>W \<le> len(a)\<close>, \<open>smooth_series_ML\<close> returns a series of the same length and
  the same index in which every interior position \<open>i\<close>, from \<open>(W-1)/2\<close> to
  \<open>len(a)-1-(W-1)/2\<close>, holds the sum of the \<open>W\<close> values around \<open>i\<close> divided by \<open>W\<close>, the
  \<open>k\<close>-th position from the start (\<open>1 \<le> k \<le> (W-1)/2\<close>) holds the mean of the first \<open>2k-1\<close>
  values, and the \<open>k\<close>-th position from the end holds the mean of the last \<open>2k-1\<close> values.
\<close>

theorem smoothing_moving_average:
  assumes odd: "odd W" and len: "W \<le> length a" and fin: "map snd a = map Fin xs"
  shows "\<exists>res. smooth_series_ML a W = Inr res \<and> length res = length a \<and>
     map fst res = map fst a \<and>
     (\<forall>i. (W - 1) div 2 \<le> i \<and> i \<le> length a - 1 - (W - 1) div 2 \<longrightarrow>
        snd (res ! i) = Fin (sum_list (take W (drop (i - (W - 1) div 2) xs)) / real W)) \<and>
     (\<forall>k. 1 \<le> k \<and> k \<le> (W - 1) div 2 \<longrightarrow>
        snd (res ! (k - 1)) = Fin (sum_list (take (2 * k - 1) xs) / real (2 * k - 1)) \<and>
        snd (res ! (length a - k))
          = Fin (sum_list (drop (length a - (2 * k - 1)) xs) / real (2 * k - 1)))"
proof -
  define h where "h = (W - 1) div 2"
  define n where "n = length a"
  have W: "W = 2 * h + 1" using odd unfolding h_def by (auto elim: oddE)
  have nx: "length xs = n" using fin unfolding n_def by (metis length_map)
  define S where "S = map (\<lambda>(v, d). fdiv v (Fin (real d)))
            (zip (every_other (pd_cumsum (take (2 * h) (map Fin xs)))) (map (\<lambda>i. 2 * i + 1) [0..<h]))"
  define T where "T = map (\<lambda>(v, d). fdiv v (Fin (real d)))
            (zip (every_other (pd_cumsum (take (2 * h) (map Fin (rev xs))))) (map (\<lambda>i. 2 * i + 1) [0..<h]))"
  define C where "C = map (\<lambda>v. fdiv v (Fin (real W)))
            (map (\<lambda>j. fsum (take W (drop j (map Fin xs)))) [0..<length xs - W + 1])"
  define res where "res = zip (map fst a) (S @ C @ rev T)"
  have sm: "smooth_series_ML a W = Inr res"
    using smooth_ok[OF W len] unfolding res_def S_def T_def C_def fin rev_map nx n_def .
  have lS: "length S = h" and lT: "length T = h"
    using W len nx unfolding S_def T_def n_def
    by (simp_all add: length_every_other length_pd_cumsum)
  have lC: "length C = n - W + 1" unfolding C_def nx by simp
  have ltot: "length (S @ C @ rev T) = n" using lS lT lC W len n_def by simp
  have lres: "length res = n" unfolding res_def using ltot n_def by simp
  have fst_res: "map fst res = map fst a" unfolding res_def using ltot n_def by simp
  have snd_res: "snd (res ! i) = (S @ C @ rev T) ! i" if "i < n" for i
    unfolding res_def using that ltot n_def by simp
  have interior: "snd (res ! i) = Fin (sum_list (take W (drop (i - h) xs)) / real W)"
    if "h \<le> i" "i \<le> n - 1 - h" for i
  proof -
    have i: "i < n" "i - h < n - W + 1" using that W len n_def by auto
    have "(S @ C @ rev T) ! i = C ! (i - h)"
      using that i lS lC by (simp add: nth_append)
    also have "\<dots> = Fin (sum_list (take W (drop (i - h) xs)) / real W)"
      unfolding C_def using i W nx by (intro window_mean_nth) simp_all
    finally show ?thesis using snd_res[OF i(1)] by simp
  qed
  have edges: "snd (res ! (k - 1)) = Fin (sum_list (take (2 * k - 1) xs) / real (2 * k - 1)) \<and>
        snd (res ! (n - k)) = Fin (sum_list (drop (n - (2 * k - 1)) xs) / real (2 * k - 1))"
    if "1 \<le> k" "k \<le> h" for k
  proof -
    have k1: "k - 1 < h" "2 * (k - 1) + 1 = 2 * k - 1" using that by auto
    have hn: "2 * h \<le> length xs" "2 * h \<le> length (rev xs)" using W len nx n_def by auto
    have "(S @ C @ rev T) ! (k - 1) = S ! (k - 1)"
      using k1 lS by (simp add: nth_append)
    also have "\<dots> = Fin (sum_list (take (2 * (k - 1) + 1) xs) / real (2 * (k - 1) + 1))"
      unfolding S_def by (rule edge_mean_nth[OF k1(1) hn(1)])
    finally have first: "snd (res ! (k - 1))
        = Fin (sum_list (take (2 * k - 1) xs) / real (2 * k - 1))"
      using snd_res[of "k - 1"] k1 W len n_def by simp
    have pos: "n - k = h + (n - W + 1) + (h - k)" using that W len n_def by simp
    have "(S @ C @ rev T) ! (n - k) = rev T ! (h - k)"
      unfolding pos using lS lC by (simp add: nth_append)
    also have "\<dots> = T ! (k - 1)"
      using that lT by (simp add: rev_nth)
    also have "\<dots> = Fin (sum_list (take (2 * (k - 1) + 1) (rev xs)) / real (2 * (k - 1) + 1))"
      unfolding T_def by (rule edge_mean_nth[OF k1(1) hn(2)])
    also have "sum_list (take (2 * (k - 1) + 1) (rev xs)) = sum_list (drop (n - (2 * k - 1)) xs)"
      using sum_list_take_rev[of "2 * k - 1" xs] k1 that hn nx by simp
    finally have "snd (res ! (n - k))
        = Fin (sum_list (drop (n - (2 * k - 1)) xs) / real (2 * k - 1))"
      using snd_res[of "n - k"] k1 that W len n_def by simp
    with first show ?thesis by simp
  qed
  show ?thesis
    using sm lres fst_res interior edges unfolding h_def n_def by blast
qed

text \<open>Witness for C1: seven numbers under an index with gaps, window 5.\<close>

theorem smoothing_moving_average_witness:
  "odd (5::nat) \<and> 5 \<le> length smooth_example \<and>
   map snd smooth_example = map Fin [4, 1, 7, 2, 9, 3, 8] \<and>
   (\<exists>res. smooth_series_ML smooth_example 5 = Inr res \<and>
      map fst res = [10, 11, 13, 14, 15, 18, 19] \<and>
      map snd res = [Fin 4, Fin 4, Fin (23 / 5), Fin (22 / 5), Fin (29 / 5), Fin (20 / 3), Fin 8])"
proof -
  have h1: "odd (5::nat)" by simp
  have h2: "5 \<le> length smooth_example" by (simp add: smooth_example_def)
  have h3: "map snd smooth_example = map Fin [4, 1, 7, 2, 9, 3, 8]"
    by (simp add: smooth_example_def)
  from smoothing_moving_average[OF h1 h2 h3] obtain res where
    sm: "smooth_series_ML smooth_example 5 = Inr res"
    and lr: "length res = length smooth_example"
    and fr: "map fst res = map fst smooth_example"
    and mid: "\<And>i. (5 - 1) div 2 \<le> i \<and> i \<le> length smooth_example - 1 - (5 - 1) div 2 \<Longrightarrow>
        snd (res ! i) = Fin (sum_list (take 5 (drop (i - (5 - 1) div 2) [4, 1, 7, 2, 9, 3, 8])) / real 5)"
    and edge: "\<And>k. 1 \<le> k \<and> k \<le> (5 - 1) div 2 \<Longrightarrow>
        snd (res ! (k - 1)) = Fin (sum_list (take (2 * k - 1) [4, 1, 7, 2, 9, 3, 8]) / real (2 * k - 1)) \<and>
        snd (res ! (length smooth_example - k))
          = Fin (sum_list (drop (length smooth_example - (2 * k - 1)) [4, 1, 7, 2, 9, 3, 8]) / real (2 * k - 1))"
    by blast
  have l7: "length smooth_example = 7" by (simp add: smooth_example_def)
  have v2: "snd (res ! 2) = Fin (23 / 5)" using mid[of 2] by (simp add: l7)
  have v3: "snd (res ! 3) = Fin (22 / 5)" using mid[of 3] by (simp add: l7)
  have v4: "snd (res ! 4) = Fin (29 / 5)" using mid[of 4] by (simp add: l7)
  have v0: "snd (res ! 0) = Fin 4" and v6: "snd (res ! 6) = Fin 8"
    using edge[of 1] by (simp_all add: l7)
  have v1: "snd (res ! 1) = Fin 4" and v5: "snd (res ! 5) = Fin (20 / 3)"
    using edge[of 2] by (simp_all add: l7)
  have "length (map snd res) = 7" using lr l7 by simp
  then have "map snd res = [map snd res ! 0, map snd res ! 1, map snd res ! 2, map snd res ! 3,
      map snd res ! 4, map snd res ! 5, map snd res ! 6]"
    by (intro nth_equalityI) (auto simp: nth_Cons' less_Suc_eq numeral_eq_Suc)
  then have A: "map snd res = [Fin 4, Fin 4, Fin (23 / 5), Fin (22 / 5), Fin (29 / 5), Fin (20 / 3), Fin 8]"
    using v0 v1 v2 v3 v4 v5 v6 lr l7 by simp
  have B: "map fst res = [10, 11, 13, 14, 15, 18, 19]"
    using fr by (simp add: smooth_example_def)
  have "\<exists>res. smooth_series_ML smooth_example 5 = Inr res \<and>
      map fst res = [10, 11, 13, 14, 15, 18, 19] \<and>
      map snd res = [Fin 4, Fin 4, Fin (23 / 5), Fin (22 / 5), Fin (29 / 5), Fin (20 / 3), Fin 8]"
    by (rule exI[of _ res]) (intro conjI sm A B)
  with h1 h2 h3 show ?thesis by (intro conjI)
qed

lemma eval_groups_raises:
  "k \<in> set ks \<Longrightarrow> P (G k) = Inl e \<Longrightarrow> \<exists>e'. eval_groups P (map (\<lambda>k. (k, G k)) ks) = Inl e'"
  by (induction ks) (auto split: sum.splits)

lemma grp_filter_raises:
  assumes "k \<in> epochNum ` set df" "P (get_group df k) = Inl e"
  shows "\<exists>e'. grp_filter P df = Inl e'"
proof -
  have "k \<in> set (first_seen [] (map epochNum df))" using assms(1) by (simp add: set_first_seen)
  from eval_groups_raises[OF this, of P "get_group df", OF assms(2)]
  show ?thesis by (auto simp: grp_filter_def grp_by_epoch_def)
qed

lemma smooth_Inr_nonempty: "smooth_series_ML a W = Inr s \<Longrightarrow> s \<noteq> [] \<and> length s = length a"
  by (auto simp: smooth_series_ML_def convolve_valid_ones_def Let_def split: sum.splits if_splits)

lemma nanmax_all_NaN: "\<forall>v \<in> set vs. v = NaN \<Longrightarrow> foldr nan_max2 vs NaN = NaN"
  by (induction vs) simp_all

lemma ang_vel_keep_all_NaN:
  assumes "loc_from_1 g = Inr g1"
    and "smooth_series_ML (map (\<lambda>r. (label r, angVel r)) g1) SM_WINDOW_FOR_FILTER = Inr s"
    and "\<forall>p \<in> set s. snd p = NaN"
  shows "ang_vel_keep g = Inr False"
proof -
  have ne: "s \<noteq> []" using smooth_Inr_nonempty[OF assms(2)] by simp
  have "\<forall>v \<in> set (map (\<lambda>(l, v). fabs v) s). v = NaN" using assms(3) by auto
  then have "foldr nan_max2 (map (\<lambda>(l, v). fabs v) s) NaN = NaN" by (rule nanmax_all_NaN)
  then have "nanmax (map (\<lambda>(l, v). fabs v) s) = Inr NaN" using ne by (simp add: nanmax_def)
  then show ?thesis using assms(1,2) by (simp add: ang_vel_keep_def)
qed

lemma ang_vel_keep_short:
  assumes "sorted (map label g)" "length (filter (\<lambda>r. 1 \<le> label r) g) < SM_WINDOW_FOR_FILTER"
  shows "ang_vel_keep g = Inl ValueError"
proof -
  have "loc_from_1 g = Inr (filter (\<lambda>r. 1 \<le> label r) g)" using assms(1) by (simp add: loc_from_1_def)
  moreover have "smooth_series_ML (map (\<lambda>r. (label r, angVel r)) (filter (\<lambda>r. 1 \<le> label r) g))
      SM_WINDOW_FOR_FILTER = Inl ValueError"
    using assms(2) by (intro smooth_short_fails) simp
  ultimately show ?thesis by (simp add: ang_vel_keep_def)
qed

subsection \<open>Smoothing a sequence shorter than the window\<close>

text \<open>
  Claim C4, as amended. When the smoothing function is called on a sequence shorter than the
  window it raises ValueError and returns nothing. The angular-velocity predicate of the
  plausibility filter then raises too (here for an epoch in increasing label order with fewer
  than \<open>SM_WINDOW_FOR_FILTER\<close> rows of label at least 1), and the filter over the table raises
  instead of excluding the epoch. An epoch is excluded on an all-undefined maximum only when
  the smoothing succeeded and every smoothed value is NaN: the maximum is then NaN and the
  comparison \<open>\<le> MAX_ANG_VEL\<close> with NaN is false.
\<close>

theorem short_window_raises:
  fixes g g' df :: "'a kin_frame_scheme list"
  shows "(length a < W \<longrightarrow> smooth_series_ML a W = Inl ValueError) \<and>
   (sorted (map label g) \<and> length (filter (\<lambda>r. 1 \<le> label r) g) < SM_WINDOW_FOR_FILTER
      \<longrightarrow> ang_vel_keep g = Inl ValueError) \<and>
   (k \<in> epochNum ` set df \<and> ang_vel_keep (get_group df k) = Inl ValueError
      \<longrightarrow> (\<exists>e. grp_filter ang_vel_keep df = Inl e)) \<and>
   (loc_from_1 g' = Inr g1 \<and>
    smooth_series_ML (map (\<lambda>r. (label r, angVel r)) g1) SM_WINDOW_FOR_FILTER = Inr s \<and>
    (\<forall>p \<in> set s. snd p = NaN)
      \<longrightarrow> ang_vel_keep g' = Inr False)"
  using smooth_short_fails[of a W] ang_vel_keep_short[of g]
    grp_filter_raises[of k df ang_vel_keep ValueError] ang_vel_keep_all_NaN[of g' g1 s]
  by blast

text \<open>
  Counterexample to claim C4 as stated: on three values and the window 9 the smoothing
  function raises ValueError rather than returning three undefined values, and the
  angular-velocity predicate and the filter raise on an epoch of five frames rather than
  excluding it.
\<close>

theorem short_window_counterexample:
  "smooth_series_ML [(0, Fin 1), (1, Fin 2), (2, Fin 3)] SM_WINDOW_FOR_FILTER = Inl ValueError \<and>
   smooth_series_ML [(0, Fin 1), (1, Fin 2), (2, Fin 3)] SM_WINDOW_FOR_FILTER
     \<noteq> Inr [(0, NaN), (1, NaN), (2, NaN)] \<and>
   ang_vel_keep (kin_epoch 1 3 5 jump_angVel) = Inl ValueError \<and>
   grp_filter ang_vel_keep (kin_epoch 1 3 5 jump_angVel) = Inl ValueError"
  by code_simp

text \<open>Witness for C4: three values under the window 9; an epoch of five frames; an epoch of
  ten frames without any defined angular velocity, which is excluded.\<close>

theorem short_window_raises_witness:
  "length [(0::nat, Fin 1), (1, Fin 2), (2, Fin 3)] < 9 \<and>
   smooth_series_ML [(0, Fin 1), (1, Fin 2), (2, Fin 3)] 9 = Inl ValueError \<and>
   sorted (map label (kin_epoch 1 3 5 jump_angVel)) \<and>
   length (filter (\<lambda>r. 1 \<le> label r) (kin_epoch 1 3 5 jump_angVel)) < SM_WINDOW_FOR_FILTER \<and>
   ang_vel_keep (kin_epoch 1 3 5 jump_angVel) = Inl ValueError \<and>
   1 \<in> epochNum ` set (kin_epoch 1 3 5 jump_angVel) \<and>
   ang_vel_keep (get_group (kin_epoch 1 3 5 jump_angVel) 1) = Inl ValueError \<and>
   (\<exists>e. grp_filter ang_vel_keep (kin_epoch 1 3 5 jump_angVel) = Inl e) \<and>
   loc_from_1 (kin_epoch 1 0 10 nan_angVel) = Inr (tl (kin_epoch 1 0 10 nan_angVel)) \<and>
   smooth_series_ML (map (\<lambda>r. (label r, angVel r)) (tl (kin_epoch 1 0 10 nan_angVel)))
       SM_WINDOW_FOR_FILTER = Inr (zip [1..<10] (replicate 9 NaN)) \<and>
   map snd (zip [1..<10] (replicate 9 NaN)) = replicate 9 NaN \<and>
   ang_vel_keep (kin_epoch 1 0 10 nan_angVel) = Inr False"
proof -
  let ?a = "[(0::nat, Fin 1), (1, Fin 2), (2, Fin 3)]"
  let ?g = "kin_epoch 1 3 5 jump_angVel"
  let ?n = "kin_epoch 1 0 10 nan_angVel"
  let ?s = "zip [1..<10] (replicate 9 NaN)"
  have a: "length ?a < 9" by simp
  have b1: "sorted (map label ?g)" by code_simp
  have b2: "length (filter (\<lambda>r. 1 \<le> label r) ?g) < SM_WINDOW_FOR_FILTER" by code_simp
  have c1: "1 \<in> epochNum ` set ?g" by code_simp
  have d1: "loc_from_1 ?n = Inr (tl ?n)" by code_simp
  have d2: "smooth_series_ML (map (\<lambda>r. (label r, angVel r)) (tl ?n)) SM_WINDOW_FOR_FILTER = Inr ?s"
    by code_simp
  have d3': "map snd ?s = replicate 9 NaN" by simp
  have d3: "\<forall>p \<in> set ?s. snd p = NaN" by (auto dest: set_zip_rightD)
  have A: "smooth_series_ML ?a 9 = Inl ValueError"
    using short_window_raises[of ?a 9] a by blast
  have B: "ang_vel_keep ?g = Inl ValueError"
    using short_window_raises[of _ _ ?g] b1 b2 by blast
  have gg: "get_group ?g 1 = ?g" by code_simp
  have C: "\<exists>e. grp_filter ang_vel_keep ?g = Inl e"
    using short_window_raises[of _ _ _ 1 ?g] c1 B gg by simp
  have D: "ang_vel_keep ?n = Inr False"
    using short_window_raises[of _ _ _ _ _ ?n "tl ?n" ?s] d1 d2 d3 by blast
  show ?thesis
    by (intro conjI a A b1 b2 B c1 C d1 d2 d3' D) (simp add: gg B)
qed

lemma length_grp_transform_first_from:
  "length (grp_transform_first_from m kvs) = length kvs"
  by (induction kvs arbitrary: m) (auto split: option.splits)

lemma grp_transform_first_from_nth:
  "i < length kvs \<Longrightarrow>
   grp_transform_first_from m kvs ! i =
     (case m (fst (kvs ! i)) of
        Some f \<Rightarrow> f
      | None \<Rightarrow> snd (hd (filter (\<lambda>p. fst p = fst (kvs ! i)) kvs)))"
proof (induction kvs arbitrary: m i)
  case Nil
  then show ?case by simp
next
  case (Cons kv kvs)
  obtain k v where kv: "kv = (k, v)" by (cases kv)
  show ?case
  proof (cases i)
    case 0
    then show ?thesis by (simp add: kv split: option.splits)
  next
    case (Suc j)
    with Cons.prems have j: "j < length kvs" by simp
    let ?k' = "fst (kvs ! j)"
    have nth: "((k, v) # kvs) ! i = kvs ! j" using Suc by simp
    show ?thesis
    proof (cases "m k")
      case None
      have step: "grp_transform_first_from m (kv # kvs) ! i
          = grp_transform_first_from (m(k \<mapsto> v)) kvs ! j"
        using None Suc by (simp add: kv)
      have IH: "grp_transform_first_from (m(k \<mapsto> v)) kvs ! j =
          (case (m(k \<mapsto> v)) ?k' of Some f \<Rightarrow> f
           | None \<Rightarrow> snd (hd (filter (\<lambda>p. fst p = ?k') kvs)))"
        by (rule Cons.IH[OF j])
      show ?thesis
      proof (cases "?k' = k")
        case True
        then show ?thesis using step IH None Suc by (simp add: kv)
      next
        case False
        then show ?thesis using step IH Suc by (simp add: kv split: option.splits)
      qed
    next
      case (Some f)
      have step: "grp_transform_first_from m (kv # kvs) ! i
          = grp_transform_first_from m kvs ! j"
        using Some Suc by (simp add: kv)
      have IH: "grp_transform_first_from m kvs ! j =
          (case m ?k' of Some f \<Rightarrow> f
           | None \<Rightarrow> snd (hd (filter (\<lambda>p. fst p = ?k') kvs)))"
        by (rule Cons.IH[OF j])
      show ?thesis
      proof (cases "?k' = k")
        case True
        then show ?thesis using step IH Some Suc by (simp add: kv)
      next
        case False
        then show ?thesis using step IH Suc by (simp add: kv split: option.splits)
      qed
    qed
  qed
qed

lemma grp_transform_first_nth:
  assumes "i < length df"
  shows "grp_transform_first (map epochNum df) (map col df) ! i
         = col (hd (get_group df (epochNum (df ! i))))"
proof -
  have z: "zip (map epochNum df) (map col df) = map (\<lambda>r. (epochNum r, col r)) df"
    by (simp add: zip_map_map zip_same_conv_map)
  have ne: "filter (\<lambda>r. epochNum r = epochNum (df ! i)) df \<noteq> []"
    using assms by (auto simp: filter_empty_conv)
  have "grp_transform_first (map epochNum df) (map col df) ! i
      = snd (hd (filter (\<lambda>p. fst p = epochNum (df ! i)) (map (\<lambda>r. (epochNum r, col r)) df)))"
    unfolding grp_transform_first_def z
    using grp_transform_first_from_nth[of i "map (\<lambda>r. (epochNum r, col r)) df" Map.empty] assms
    by simp
  also have "filter (\<lambda>p. fst p = epochNum (df ! i)) (map (\<lambda>r. (epochNum r, col r)) df)
      = map (\<lambda>r. (epochNum r, col r)) (filter (\<lambda>r. epochNum r = epochNum (df ! i)) df)"
    by (simp add: filter_map comp_def)
  finally show ?thesis using ne by (simp add: hd_map get_group_def)
qed

lemma length_grp_transform_first:
  "length (grp_transform_first (map epochNum df) (map col df)) = length df"
  by (simp add: grp_transform_first_def length_grp_transform_first_from)

lemma get_group_map_index:
  assumes "\<And>i. i < n \<Longrightarrow> epochNum (F i) = K i"
  shows "get_group (map F [0..<n]) k = map F (filter (\<lambda>i. K i = k) [0..<n])"
proof -
  have "filter (\<lambda>i. epochNum (F i) = k) [0..<n] = filter (\<lambda>i. K i = k) [0..<n]"
    using assms by (intro filter_cong) auto
  then show ?thesis by (simp add: get_group_def filter_map comp_def)
qed

lemma get_group_index:
  "get_group df k = map (\<lambda>i. df ! i) (filter (\<lambda>i. epochNum (df ! i) = k) [0..<length df])"
proof -
  have "get_group (map (\<lambda>i. df ! i) [0..<length df]) k
      = map (\<lambda>i. df ! i) (filter (\<lambda>i. epochNum (df ! i) = k) [0..<length df])"
    by (rule get_group_map_index) simp
  then show ?thesis by (simp add: map_nth)
qed

lemma length_kinematics1: "length (kinematics1 rt) = length rt"
  by (simp add: kinematics1_def Let_def)

lemma kinematics1_row:
  assumes "i < length rt"
  shows "epochNum (kinematics1 rt ! i) = epochNum (rt ! i)"
    and "absx (kinematics1 rt ! i) = absx (rt ! i)"
    and "absy (kinematics1 rt ! i) = absy (rt ! i)"
    and "absHeadx (kinematics1 rt ! i) = absHeadx (rt ! i)"
    and "absHeady (kinematics1 rt ! i) = absHeady (rt ! i)"
    and "ang (kinematics1 rt ! i) = ang (rt ! i)"
    and "x_col (kinematics1 rt ! i) = absx (rt ! i) - absx (hd (get_group rt (epochNum (rt ! i))))"
    and "y_col (kinematics1 rt ! i) = absy (rt ! i) - absy (hd (get_group rt (epochNum (rt ! i))))"
    and "headx (kinematics1 rt ! i)
          = absHeadx (rt ! i) - absHeadx (hd (get_group rt (epochNum (rt ! i))))"
    and "heady (kinematics1 rt ! i)
          = absHeady (rt ! i) - absHeady (hd (get_group rt (epochNum (rt ! i))))"
    and "centeredAng (kinematics1 rt ! i) = ang (rt ! i) - ang (hd (get_group rt (epochNum (rt ! i))))"
  using assms by (simp_all add: kinematics1_def Let_def grp_transform_first_nth)

lemma length_grp_diff_from: "length (grp_diff_from m kvs) = length kvs"
  by (induction kvs arbitrary: m) auto

lemma length_grp_diff: "length ks = length vs \<Longrightarrow> length (grp_diff ks vs) = length vs"
  by (simp add: grp_diff_def length_grp_diff_from)

lemma series_diff_Cons_tl:
  "tl (series_diff (p # v # G)) = fsub v p # tl (series_diff (v # G))"
  by simp

lemma grp_diff_from_group:
  "map snd (filter (\<lambda>p. fst p = k) (zip (map fst kvs) (grp_diff_from m kvs)))
   = (case m k of
        None \<Rightarrow> series_diff (map snd (filter (\<lambda>p. fst p = k) kvs))
      | Some p \<Rightarrow> tl (series_diff (p # map snd (filter (\<lambda>p. fst p = k) kvs))))"
proof (induction kvs arbitrary: m)
  case Nil
  then show ?case by (simp split: option.splits)
next
  case (Cons kv kvs)
  obtain k' v where kv: "kv = (k', v)" by (cases kv)
  let ?G = "map snd (filter (\<lambda>p. fst p = k) kvs)"
  have IH: "map snd (filter (\<lambda>p. fst p = k) (zip (map fst kvs) (grp_diff_from (m(k' \<mapsto> v)) kvs)))
      = (case (m(k' \<mapsto> v)) k of None \<Rightarrow> series_diff ?G | Some p \<Rightarrow> tl (series_diff (p # ?G)))"
    by (rule Cons.IH)
  show ?case
  proof (cases "k' = k")
    case True
    have "map snd (filter (\<lambda>p. fst p = k) (zip (map fst (kv # kvs)) (grp_diff_from m (kv # kvs))))
        = (case m k of None \<Rightarrow> NaN | Some p \<Rightarrow> fsub v p) # tl (series_diff (v # ?G))"
      using IH True by (simp add: kv)
    also have "\<dots> = (case m k of
          None \<Rightarrow> series_diff (v # ?G)
        | Some p \<Rightarrow> tl (series_diff (p # v # ?G)))"
      by (simp split: option.splits)
    finally have E: "map snd (filter (\<lambda>p. fst p = k) (zip (map fst (kv # kvs)) (grp_diff_from m (kv # kvs))))
        = (case m k of None \<Rightarrow> series_diff (v # ?G) | Some p \<Rightarrow> tl (series_diff (p # v # ?G)))" .
    have G: "map snd (filter (\<lambda>p. fst p = k) (kv # kvs)) = v # ?G"
      using True by (simp add: kv)
    show ?thesis unfolding G by (rule E)
  next
    case False
    then show ?thesis using IH by (simp add: kv cong: option.case_cong)
  qed
qed

lemma zip_filter_index:
  assumes "length ks = length vs"
  shows "map snd (filter (\<lambda>p. fst p = k) (zip ks vs))
         = map (\<lambda>i. vs ! i) (filter (\<lambda>i. ks ! i = k) [0..<length ks])"
proof -
  have "zip ks vs = map (\<lambda>i. (ks ! i, vs ! i)) [0..<length ks]"
    using assms by (intro nth_equalityI) simp_all
  then show ?thesis by (simp add: filter_map comp_def)
qed

lemma grp_diff_group_index:
  assumes "length ks = length vs"
  shows "map (\<lambda>i. grp_diff ks vs ! i) (filter (\<lambda>i. ks ! i = k) [0..<length ks])
         = series_diff (map (\<lambda>i. vs ! i) (filter (\<lambda>i. ks ! i = k) [0..<length ks]))"
proof -
  have l: "length ks = length (grp_diff ks vs)" using assms by (simp add: length_grp_diff)
  have "map snd (filter (\<lambda>p. fst p = k) (zip (map fst (zip ks vs)) (grp_diff_from Map.empty (zip ks vs))))
      = series_diff (map snd (filter (\<lambda>p. fst p = k) (zip ks vs)))"
    using grp_diff_from_group[of k "zip ks vs" Map.empty] by simp
  moreover have "map fst (zip ks vs) = ks" using assms by simp
  ultimately have "map snd (filter (\<lambda>p. fst p = k) (zip ks (grp_diff ks vs)))
      = series_diff (map snd (filter (\<lambda>p. fst p = k) (zip ks vs)))"
    by (simp add: grp_diff_def)
  then show ?thesis
    using zip_filter_index[OF l, of k] zip_filter_index[OF assms, of k] by simp
qed



lemma series_diff_hd: "vs \<noteq> [] \<Longrightarrow> hd (series_diff vs) = NaN"
  by (cases vs) simp_all





subsection \<open>Angular acceleration\<close>




lemma grp_filter_whole:
  assumes "grp_filter P df = Inr out"
  shows "get_group out k = (if P (get_group df k) = Inr True then get_group df k else [])"
  unfolding grp_filter_Inr[OF assms]
  by (rule get_group_filter_group[of "\<lambda>g. P g = Inr True" df k])

lemma grp_filter_whole_or_empty:
  assumes "grp_filter P df = Inr out"
  shows "get_group out k = [] \<or> get_group out k = get_group df k"
  using grp_filter_whole[OF assms, of k] by (cases "P (get_group df k) = Inr True") simp_all

lemma raw_filter_total: "\<exists>out. raw_filter df = Inr out"
  using raw_filter_eq[of df] by blast

lemma dur_y_x_filter_total: "\<exists>out. dur_y_x_filter df = Inr out"
  using dur_y_x_filter_eq[of df] by blast

lemma raw_filter_subset:
  assumes "raw_filter df = Inr out"
  shows "subseq out df" "get_group out k = [] \<or> get_group out k = get_group (del_buf df) k"
proof -
  from assms have g: "grp_filter raw_keep (del_buf df) = Inr out" by (simp add: raw_filter_def)
  have "subseq out (del_buf df)" by (rule grp_filter_subseq[OF g])
  then show "subseq out df" using subseq_del_buf[of df] by (rule subseq_order.order_trans)
  show "get_group out k = [] \<or> get_group out k = get_group (del_buf df) k"
    by (rule grp_filter_whole_or_empty[OF g])
qed

lemma dur_y_x_filter_subset:
  assumes "dur_y_x_filter df = Inr out"
  shows "subseq out df" "get_group out k = [] \<or> get_group out k = get_group df k"
proof -
  from assms obtain f1 where f1: "grp_filter gap_keep df = Inr f1"
    and f2: "grp_filter dir_keep f1 = Inr out"
    by (auto simp: dur_y_x_filter_def split: sum.splits)
  have "subseq out f1" by (rule grp_filter_subseq[OF f2])
  then show "subseq out df" using grp_filter_subseq[OF f1] by (rule subseq_order.order_trans)
  show "get_group out k = [] \<or> get_group out k = get_group df k"
    using grp_filter_whole_or_empty[OF f1, of k] grp_filter_whole_or_empty[OF f2, of k] by auto
qed

lemma displ_dist_vel_filter_subset:
  assumes "displ_dist_vel_filter df = Inr out"
  shows "subseq out df" "get_group out k = [] \<or> get_group out k = get_group df k"
proof -
  from assms obtain f1 f2 where f1: "grp_filter displ_dist_keep df = Inr f1"
    and f2: "grp_filter ang_vel_keep f1 = Inr f2"
    and f3: "grp_filter ang_accel_keep f2 = Inr out"
    by (auto simp: displ_dist_vel_filter_def split: sum.splits)
  have "subseq out f2" by (rule grp_filter_subseq[OF f3])
  then have "subseq out f1" using grp_filter_subseq[OF f2] by (rule subseq_order.order_trans)
  then show "subseq out df" using grp_filter_subseq[OF f1] by (rule subseq_order.order_trans)
  show "get_group out k = [] \<or> get_group out k = get_group df k"
    using grp_filter_whole_or_empty[OF f1, of k] grp_filter_whole_or_empty[OF f2, of k]
      grp_filter_whole_or_empty[OF f3, of k] by auto
qed

subsection \<open>Filters only delete frames\<close>

text \<open>
  Claim C10. Every filter stage returns a subsequence of its input table: the retained rows
  are rows of the input, unchanged in every column and in the input's order. The structural
  filter and the orientation and timing filter always return; the plausibility filter can
  raise, and returns such a table whenever it returns. Each stage deletes whole epochs: an
  epoch of the output is either absent or the whole epoch of the input (for the structural
  filter, of the input after the trim of the buffer frames).
\<close>

theorem filters_only_delete_frames:
  fixes raw :: "'a raw_frame_scheme list"
    and ana :: "'b ana_frame_scheme list"
    and kin :: "'c kin_frame_scheme list"
  shows "(\<exists>out. raw_filter raw = Inr out \<and> subseq out raw \<and>
            (\<forall>k. get_group out k = [] \<or> get_group out k = get_group (del_buf raw) k)) \<and>
         (\<exists>out. dur_y_x_filter ana = Inr out \<and> subseq out ana \<and>
            (\<forall>k. get_group out k = [] \<or> get_group out k = get_group ana k)) \<and>
         (\<forall>out. displ_dist_vel_filter kin = Inr out \<longrightarrow> subseq out kin \<and>
            (\<forall>k. get_group out k = [] \<or> get_group out k = get_group kin k))"
proof (intro conjI allI impI)
  from raw_filter_total[of raw] obtain out where o: "raw_filter raw = Inr out" by blast
  show "\<exists>out. raw_filter raw = Inr out \<and> subseq out raw \<and>
            (\<forall>k. get_group out k = [] \<or> get_group out k = get_group (del_buf raw) k)"
    using o raw_filter_subset[OF o] by blast
next
  from dur_y_x_filter_total[of ana] obtain out where o: "dur_y_x_filter ana = Inr out" by blast
  show "\<exists>out. dur_y_x_filter ana = Inr out \<and> subseq out ana \<and>
            (\<forall>k. get_group out k = [] \<or> get_group out k = get_group ana k)"
    using o dur_y_x_filter_subset[OF o] by blast
next
  fix out assume "displ_dist_vel_filter kin = Inr out"
  then show "subseq out kin" by (rule displ_dist_vel_filter_subset(1))
next
  fix out k assume "displ_dist_vel_filter kin = Inr out"
  then show "get_group out k = [] \<or> get_group out k = get_group kin k"
    by (rule displ_dist_vel_filter_subset(2))
qed

lemma two_jump_epochs_filtered:
  "displ_dist_vel_filter two_jump_epochs = Inr (kin_epoch 2 12 12 jump_angVel)"
  by code_simp

text \<open>Witness for C10: of two epochs of twelve frames the plausibility filter returns the
  second, unchanged.\<close>

theorem filters_only_delete_frames_witness:
  "displ_dist_vel_filter two_jump_epochs = Inr (kin_epoch 2 12 12 jump_angVel) \<and>
   subseq (kin_epoch 2 12 12 jump_angVel) two_jump_epochs \<and>
   map label (kin_epoch 2 12 12 jump_angVel) = [12..<24] \<and>
   length two_jump_epochs = 24"
proof -
  have l: "map label (kin_epoch 2 12 12 jump_angVel) = [12..<24]" "length two_jump_epochs = 24"
    by code_simp+
  from filters_only_delete_frames[of "[] :: raw_frame list" "[] :: ana_frame list" two_jump_epochs]
  have "\<forall>out. displ_dist_vel_filter two_jump_epochs = Inr out \<longrightarrow> subseq out two_jump_epochs"
    by (elim conjE) (intro allI impI, elim allE impE, assumption, elim conjE, assumption)
  then have "subseq (kin_epoch 2 12 12 jump_angVel) two_jump_epochs"
    using two_jump_epochs_filtered by (elim allE impE) assumption+
  with two_jump_epochs_filtered l show ?thesis by (intro conjI)
qed

lemma hd_get_group_index:
  assumes "get_group df k \<noteq> []"
  shows "hd (get_group df k) = df ! hd (filter (\<lambda>i. epochNum (df ! i) = k) [0..<length df])"
    and "hd (filter (\<lambda>i. epochNum (df ! i) = k) [0..<length df]) < length df"
    and "epochNum (df ! hd (filter (\<lambda>i. epochNum (df ! i) = k) [0..<length df])) = k"
proof -
  let ?I = "filter (\<lambda>i. epochNum (df ! i) = k) [0..<length df]"
  have g: "get_group df k = map (\<lambda>i. df ! i) ?I" by (rule get_group_index)
  with assms have ne: "?I \<noteq> []" by auto
  then have h: "hd ?I \<in> set ?I" by (rule hd_in_set)
  show "hd (get_group df k) = df ! hd ?I" unfolding g using ne by (simp add: hd_map)
  define j where "j = hd ?I"
  have "j \<in> set ?I" using h unfolding j_def .
  then have "j < length df \<and> epochNum (df ! j) = k" by simp
  then show "hd ?I < length df" "epochNum (df ! hd ?I) = k" unfolding j_def by blast+
qed

lemma same_keys_group_index:
  assumes "length A = length B" "\<And>i. i < length B \<Longrightarrow> epochNum (A ! i) = epochNum (B ! i)"
  shows "filter (\<lambda>i. epochNum (A ! i) = k) [0..<length A]
         = filter (\<lambda>i. epochNum (B ! i) = k) [0..<length B]"
  unfolding assms(1) using assms(2) by (intro filter_cong) auto

lemma same_keys_hd:
  assumes len: "length (A :: 'a frame_id_scheme list) = length (B :: 'b frame_id_scheme list)"
    and key: "\<And>i. i < length B \<Longrightarrow> epochNum (A ! i) = epochNum (B ! i)"
    and ne: "get_group A k \<noteq> []"
  shows "\<exists>i. i < length B \<and> epochNum (B ! i) = k \<and> get_group B k \<noteq> [] \<and>
             hd (get_group A k) = A ! i \<and> hd (get_group B k) = B ! i"
proof -
  let ?I = "filter (\<lambda>i. epochNum (B ! i) = k) [0..<length B]"
  have I: "filter (\<lambda>i. epochNum (A ! i) = k) [0..<length A] = ?I"
    by (rule same_keys_group_index[OF len key])
  have gA: "get_group A k = map (\<lambda>i. A ! i) ?I" using get_group_index[of A k] I by simp
  have gB: "get_group B k = map (\<lambda>i. B ! i) ?I" by (rule get_group_index)
  from ne gA have "?I \<noteq> []" by auto
  then have neB: "get_group B k \<noteq> []" using gB by simp
  show ?thesis
    using hd_get_group_index[OF ne] hd_get_group_index[OF neB] I neB
    by (intro exI[of _ "hd ?I"]) simp
qed

lemma length_reset_index: "length (reset_index df) = length df"
  by (simp add: reset_index_def)

lemma reset_index_row:
  assumes "i < length df"
  shows "label (reset_index df ! i) = i"
    and "oriIndex (reset_index df ! i) = label (df ! i)"
    and "epochNum (reset_index df ! i) = epochNum (df ! i)"
    and "time (reset_index df ! i) = time (df ! i)"
    and "absx (reset_index df ! i) = absx (df ! i)"
    and "absy (reset_index df ! i) = absy (df ! i)"
    and "absHeadx (reset_index df ! i) = absHeadx (df ! i)"
    and "absHeady (reset_index df ! i) = absHeady (df ! i)"
    and "ang (reset_index df ! i) = ang (df ! i)"
  using assms by (simp_all add: reset_index_def Let_def)

lemma kinematics1_row_id:
  assumes "i < length rt"
  shows "label (kinematics1 rt ! i) = label (rt ! i)"
    and "oriIndex (kinematics1 rt ! i) = oriIndex (rt ! i)"
  using assms by (simp_all add: kinematics1_def Let_def)

lemma reset_index_hd:
  assumes "get_group df k \<noteq> []"
  shows "absx (hd (get_group (reset_index df) k)) = absx (hd (get_group df k))"
    and "absy (hd (get_group (reset_index df) k)) = absy (hd (get_group df k))"
    and "absHeadx (hd (get_group (reset_index df) k)) = absHeadx (hd (get_group df k))"
    and "absHeady (hd (get_group (reset_index df) k)) = absHeady (hd (get_group df k))"
    and "ang (hd (get_group (reset_index df) k)) = ang (hd (get_group df k))"
proof -
  have "\<exists>i. i < length (reset_index df) \<and> epochNum (reset_index df ! i) = k \<and>
      get_group (reset_index df) k \<noteq> [] \<and>
      hd (get_group df k) = df ! i \<and> hd (get_group (reset_index df) k) = reset_index df ! i"
    by (rule same_keys_hd[OF _ _ assms]) (simp_all add: length_reset_index reset_index_row)
  then obtain i where i: "i < length df" "hd (get_group df k) = df ! i"
    "hd (get_group (reset_index df) k) = reset_index df ! i"
    unfolding length_reset_index by blast
  show "absx (hd (get_group (reset_index df) k)) = absx (hd (get_group df k))"
    "absy (hd (get_group (reset_index df) k)) = absy (hd (get_group df k))"
    "absHeadx (hd (get_group (reset_index df) k)) = absHeadx (hd (get_group df k))"
    "absHeady (hd (get_group (reset_index df) k)) = absHeady (hd (get_group df k))"
    "ang (hd (get_group (reset_index df) k)) = ang (hd (get_group df k))"
    unfolding i(2,3) using reset_index_row[OF i(1)] by simp_all
qed

lemma centered_rows:
  assumes i: "i < length df"
  shows "label (kinematics1 (reset_index df) ! i) = i"
    and "oriIndex (kinematics1 (reset_index df) ! i) = label (df ! i)"
    and "epochNum (kinematics1 (reset_index df) ! i) = epochNum (df ! i)"
    and "x_col (kinematics1 (reset_index df) ! i)
          = absx (df ! i) - absx (hd (get_group df (epochNum (df ! i))))"
    and "y_col (kinematics1 (reset_index df) ! i)
          = absy (df ! i) - absy (hd (get_group df (epochNum (df ! i))))"
    and "headx (kinematics1 (reset_index df) ! i)
          = absHeadx (df ! i) - absHeadx (hd (get_group df (epochNum (df ! i))))"
    and "heady (kinematics1 (reset_index df) ! i)
          = absHeady (df ! i) - absHeady (hd (get_group df (epochNum (df ! i))))"
    and "centeredAng (kinematics1 (reset_index df) ! i)
          = ang (df ! i) - ang (hd (get_group df (epochNum (df ! i))))"
proof -
  let ?rt = "reset_index df"
  have ir: "i < length ?rt" using i by (simp add: length_reset_index)
  have "df ! i \<in> set df" using i by simp
  then have ne: "get_group df (epochNum (df ! i)) \<noteq> []" by (rule get_group_nonempty)
  note h = reset_index_hd[OF ne]
  note r = reset_index_row[OF i]
  note k = kinematics1_row[OF ir] kinematics1_row_id[OF ir]
  show "label (kinematics1 ?rt ! i) = i" using k r by simp
  show "oriIndex (kinematics1 ?rt ! i) = label (df ! i)" using k r by simp
  show "epochNum (kinematics1 ?rt ! i) = epochNum (df ! i)" using k r by simp
  show "x_col (kinematics1 ?rt ! i) = absx (df ! i) - absx (hd (get_group df (epochNum (df ! i))))"
    using k(7) r h by simp
  show "y_col (kinematics1 ?rt ! i) = absy (df ! i) - absy (hd (get_group df (epochNum (df ! i))))"
    using k(8) r h by simp
  show "headx (kinematics1 ?rt ! i)
      = absHeadx (df ! i) - absHeadx (hd (get_group df (epochNum (df ! i))))"
    using k(9) r h by simp
  show "heady (kinematics1 ?rt ! i)
      = absHeady (df ! i) - absHeady (hd (get_group df (epochNum (df ! i))))"
    using k(10) r h by simp
  show "centeredAng (kinematics1 ?rt ! i)
      = ang (df ! i) - ang (hd (get_group df (epochNum (df ! i))))"
    using k(11) r h by simp
qed

lemma centered_first_rows:
  assumes ne: "get_group df k \<noteq> []"
  shows "get_group (kinematics1 (reset_index df)) k \<noteq> []"
    and "oriIndex (hd (get_group (kinematics1 (reset_index df)) k)) = label (hd (get_group df k))"
    and "x_col (hd (get_group (kinematics1 (reset_index df)) k)) = 0"
    and "y_col (hd (get_group (kinematics1 (reset_index df)) k)) = 0"
    and "headx (hd (get_group (kinematics1 (reset_index df)) k)) = 0"
    and "heady (hd (get_group (kinematics1 (reset_index df)) k)) = 0"
    and "centeredAng (hd (get_group (kinematics1 (reset_index df)) k)) = 0"
proof -
  let ?A = "kinematics1 (reset_index df)"
  have len: "length df = length ?A" by (simp add: length_kinematics1 length_reset_index)
  have "\<exists>i. i < length ?A \<and> epochNum (?A ! i) = k \<and> get_group ?A k \<noteq> [] \<and>
      hd (get_group df k) = df ! i \<and> hd (get_group ?A k) = ?A ! i"
  proof (rule same_keys_hd[OF len _ ne])
    fix i assume "i < length ?A"
    then have "i < length df" using len by simp
    then show "epochNum (df ! i) = epochNum (?A ! i)" by (simp add: centered_rows(3))
  qed
  then obtain i where i: "i < length df" "epochNum (?A ! i) = k" "get_group ?A k \<noteq> []"
    "hd (get_group df k) = df ! i" "hd (get_group ?A k) = ?A ! i"
    using len by auto
  have ki: "epochNum (df ! i) = k" using centered_rows(3)[OF i(1)] i(2) by simp
  note c = centered_rows[OF i(1)]
  show "get_group ?A k \<noteq> []" by (rule i(3))
  show "oriIndex (hd (get_group ?A k)) = label (hd (get_group df k))"
    unfolding i(4,5) by (rule c(2))
  show "x_col (hd (get_group ?A k)) = 0" unfolding i(5) c(4) ki i(4) by simp
  show "y_col (hd (get_group ?A k)) = 0" unfolding i(5) c(5) ki i(4) by simp
  show "headx (hd (get_group ?A k)) = 0" unfolding i(5) c(6) ki i(4) by simp
  show "heady (hd (get_group ?A k)) = 0" unfolding i(5) c(7) ki i(4) by simp
  show "centeredAng (hd (get_group ?A k)) = 0" unfolding i(5) c(8) ki i(4) by simp
qed

subsection \<open>Centered coordinates\<close>

text \<open>
  Claim C6. Let \<open>df\<close> be the table returned by the structural filter, \<open>raw_truncate\<close> its
  \<open>reset_index\<close> and \<open>ana\<close> the table with the centered coordinates. Row by row, \<open>ana\<close> keeps
  the epoch and records the row's old label in \<open>oriIndex\<close>, and each of \<open>x\<close>, \<open>y\<close>, \<open>headx\<close>,
  \<open>heady\<close>, \<open>centeredAng\<close> is the row's \<open>absx\<close>, \<open>absy\<close>, \<open>absHeadx\<close>, \<open>absHeady\<close>, \<open>ang\<close> in
  \<open>df\<close> minus the value of the first frame of the row's epoch in \<open>df\<close>. For every epoch of
  \<open>df\<close>, the first frame of the epoch in \<open>ana\<close> is the epoch's first frame of \<open>df\<close> and has
  \<open>x\<close>, \<open>y\<close>, \<open>headx\<close>, \<open>heady\<close> and \<open>centeredAng\<close> all equal to 0.
\<close>

theorem centered_on_first_frame:
  "length (kinematics1 (reset_index df)) = length df \<and>
   (\<forall>i<length df.
      label (kinematics1 (reset_index df) ! i) = i \<and>
      oriIndex (kinematics1 (reset_index df) ! i) = label (df ! i) \<and>
      epochNum (kinematics1 (reset_index df) ! i) = epochNum (df ! i) \<and>
      x_col (kinematics1 (reset_index df) ! i)
        = absx (df ! i) - absx (hd (get_group df (epochNum (df ! i)))) \<and>
      y_col (kinematics1 (reset_index df) ! i)
        = absy (df ! i) - absy (hd (get_group df (epochNum (df ! i)))) \<and>
      headx (kinematics1 (reset_index df) ! i)
        = absHeadx (df ! i) - absHeadx (hd (get_group df (epochNum (df ! i)))) \<and>
      heady (kinematics1 (reset_index df) ! i)
        = absHeady (df ! i) - absHeady (hd (get_group df (epochNum (df ! i)))) \<and>
      centeredAng (kinematics1 (reset_index df) ! i)
        = ang (df ! i) - ang (hd (get_group df (epochNum (df ! i))))) \<and>
   (\<forall>k. get_group df k \<noteq> [] \<longrightarrow>
      get_group (kinematics1 (reset_index df)) k \<noteq> [] \<and>
      oriIndex (hd (get_group (kinematics1 (reset_index df)) k)) = label (hd (get_group df k)) \<and>
      x_col (hd (get_group (kinematics1 (reset_index df)) k)) = 0 \<and>
      y_col (hd (get_group (kinematics1 (reset_index df)) k)) = 0 \<and>
      headx (hd (get_group (kinematics1 (reset_index df)) k)) = 0 \<and>
      heady (hd (get_group (kinematics1 (reset_index df)) k)) = 0 \<and>
      centeredAng (hd (get_group (kinematics1 (reset_index df)) k)) = 0)"
proof (intro conjI allI impI)
  show "length (kinematics1 (reset_index df)) = length df"
    by (simp add: length_kinematics1 length_reset_index)
qed (rule centered_rows centered_first_rows, assumption)+

lemma raw_example_values:
  "length raw_example = 8"
  "label (raw_example ! 7) = 13"
  "absx (raw_example ! 7) - absx (hd (get_group raw_example (epochNum (raw_example ! 7)))) = 3"
  "absy (raw_example ! 7) - absy (hd (get_group raw_example (epochNum (raw_example ! 7)))) = 6"
  "absHeadx (raw_example ! 7) - absHeadx (hd (get_group raw_example (epochNum (raw_example ! 7)))) = - 3"
  "absHeady (raw_example ! 7) - absHeady (hd (get_group raw_example (epochNum (raw_example ! 7)))) = 2"
  "ang (raw_example ! 7) - ang (hd (get_group raw_example (epochNum (raw_example ! 7)))) = - 6"
  "get_group raw_example 7 \<noteq> []"
  "label (hd (get_group raw_example 7)) = 10"
  by code_simp+

text \<open>Witness for C6: the last frame of the second epoch of a table of two epochs, and the
  first frame of that epoch.\<close>

theorem centered_on_first_frame_witness:
  "(7::nat) < length raw_example \<and>
   label (kinematics1 (reset_index raw_example) ! 7) = 7 \<and>
   oriIndex (kinematics1 (reset_index raw_example) ! 7) = 13 \<and>
   x_col (kinematics1 (reset_index raw_example) ! 7) = 3 \<and>
   y_col (kinematics1 (reset_index raw_example) ! 7) = 6 \<and>
   headx (kinematics1 (reset_index raw_example) ! 7) = - 3 \<and>
   heady (kinematics1 (reset_index raw_example) ! 7) = 2 \<and>
   centeredAng (kinematics1 (reset_index raw_example) ! 7) = - 6 \<and>
   get_group raw_example 7 \<noteq> [] \<and>
   oriIndex (hd (get_group (kinematics1 (reset_index raw_example)) 7)) = 10 \<and>
   x_col (hd (get_group (kinematics1 (reset_index raw_example)) 7)) = 0 \<and>
   y_col (hd (get_group (kinematics1 (reset_index raw_example)) 7)) = 0 \<and>
   headx (hd (get_group (kinematics1 (reset_index raw_example)) 7)) = 0 \<and>
   heady (hd (get_group (kinematics1 (reset_index raw_example)) 7)) = 0 \<and>
   centeredAng (hd (get_group (kinematics1 (reset_index raw_example)) 7)) = 0"
proof -
  let ?K = "kinematics1 (reset_index raw_example)"
  have i: "(7::nat) < length raw_example" by (simp add: raw_example_values(1))
  note t = centered_on_first_frame[of raw_example]
  from t have rows: "\<forall>i<length raw_example.
      label (?K ! i) = i \<and>
      oriIndex (?K ! i) = label (raw_example ! i) \<and>
      epochNum (?K ! i) = epochNum (raw_example ! i) \<and>
      x_col (?K ! i) = absx (raw_example ! i) - absx (hd (get_group raw_example (epochNum (raw_example ! i)))) \<and>
      y_col (?K ! i) = absy (raw_example ! i) - absy (hd (get_group raw_example (epochNum (raw_example ! i)))) \<and>
      headx (?K ! i) = absHeadx (raw_example ! i) - absHeadx (hd (get_group raw_example (epochNum (raw_example ! i)))) \<and>
      heady (?K ! i) = absHeady (raw_example ! i) - absHeady (hd (get_group raw_example (epochNum (raw_example ! i)))) \<and>
      centeredAng (?K ! i) = ang (raw_example ! i) - ang (hd (get_group raw_example (epochNum (raw_example ! i))))"
    by (elim conjE)
  from t have first: "\<forall>k. get_group raw_example k \<noteq> [] \<longrightarrow>
      get_group ?K k \<noteq> [] \<and>
      oriIndex (hd (get_group ?K k)) = label (hd (get_group raw_example k)) \<and>
      x_col (hd (get_group ?K k)) = 0 \<and> y_col (hd (get_group ?K k)) = 0 \<and>
      headx (hd (get_group ?K k)) = 0 \<and> heady (hd (get_group ?K k)) = 0 \<and>
      centeredAng (hd (get_group ?K k)) = 0"
    by (elim conjE)
  from rows i have r7:
      "label (?K ! 7) = 7 \<and>
      oriIndex (?K ! 7) = label (raw_example ! 7) \<and>
      epochNum (?K ! 7) = epochNum (raw_example ! 7) \<and>
      x_col (?K ! 7) = absx (raw_example ! 7) - absx (hd (get_group raw_example (epochNum (raw_example ! 7)))) \<and>
      y_col (?K ! 7) = absy (raw_example ! 7) - absy (hd (get_group raw_example (epochNum (raw_example ! 7)))) \<and>
      headx (?K ! 7) = absHeadx (raw_example ! 7) - absHeadx (hd (get_group raw_example (epochNum (raw_example ! 7)))) \<and>
      heady (?K ! 7) = absHeady (raw_example ! 7) - absHeady (hd (get_group raw_example (epochNum (raw_example ! 7)))) \<and>
      centeredAng (?K ! 7) = ang (raw_example ! 7) - ang (hd (get_group raw_example (epochNum (raw_example ! 7))))"
    by (elim allE[of _ 7] impE)
  from first raw_example_values(8) have f7:
      "get_group ?K 7 \<noteq> [] \<and>
      oriIndex (hd (get_group ?K 7)) = label (hd (get_group raw_example 7)) \<and>
      x_col (hd (get_group ?K 7)) = 0 \<and> y_col (hd (get_group ?K 7)) = 0 \<and>
      headx (hd (get_group ?K 7)) = 0 \<and> heady (hd (get_group ?K 7)) = 0 \<and>
      centeredAng (hd (get_group ?K 7)) = 0"
    by (elim allE[of _ 7] impE)
  show ?thesis
    using i r7 f7 unfolding raw_example_values(2-7,9)
    by (intro conjI raw_example_values(8)) (elim conjE, assumption)+
qed

lemma mset_filter_disjoint:
  "\<forall>r. \<not> (P r \<and> Q r) \<Longrightarrow>
   mset (filter P xs) + mset (filter Q xs) = mset (filter (\<lambda>r. P r \<or> Q r) xs)"
  by (induction xs) auto

lemma mset_concat_groups:
  "distinct ks \<Longrightarrow>
   mset (concat (map (\<lambda>k. filter (\<lambda>r. f r = k) xs) ks)) = mset (filter (\<lambda>r. f r \<in> set ks) xs)"
proof (induction ks)
  case Nil
  then show ?case by simp
next
  case (Cons k ks)
  then have d: "\<forall>r. \<not> (f r = k \<and> f r \<in> set ks)" by auto
  have "mset (concat (map (\<lambda>k. filter (\<lambda>r. f r = k) xs) (k # ks)))
      = mset (filter (\<lambda>r. f r = k) xs) + mset (filter (\<lambda>r. f r \<in> set ks) xs)"
    using Cons by simp
  also have "\<dots> = mset (filter (\<lambda>r. f r = k \<or> f r \<in> set ks) xs)"
    by (rule mset_filter_disjoint[OF d])
  finally show ?case by simp
qed

lemma grp_by_epoch_keys:
  "map fst (grp_by_epoch df) = first_seen [] (map epochNum df)"
  by (simp add: grp_by_epoch_def comp_def)

lemma grp_by_epoch_partition:
  "mset (concat (map snd (grp_by_epoch df))) = mset df"
proof -
  let ?ks = "first_seen [] (map epochNum df)"
  have "map snd (grp_by_epoch df) = map (\<lambda>k. filter (\<lambda>r. epochNum r = k) df) ?ks"
    by (simp add: grp_by_epoch_def get_group_def comp_def)
  then have "mset (concat (map snd (grp_by_epoch df)))
      = mset (filter (\<lambda>r. epochNum r \<in> set ?ks) df)"
    using mset_concat_groups[OF distinct_first_seen, of epochNum df "[]" "map epochNum df"]
    by simp
  also have "filter (\<lambda>r. epochNum r \<in> set ?ks) df = df"
    by (simp add: set_first_seen)
  finally show ?thesis .
qed

lemma grp_by_epoch_groups:
  assumes "(k, g) \<in> set (grp_by_epoch df)"
  shows "g = filter (\<lambda>r. epochNum r = k) df" "g \<noteq> []" "subseq g df"
proof -
  from assms have k: "k \<in> set (first_seen [] (map epochNum df))" and g: "g = get_group df k"
    by (auto simp: grp_by_epoch_def)
  show "g = filter (\<lambda>r. epochNum r = k) df" using g by (simp add: get_group_def)
  from k obtain r where "r \<in> set df" "epochNum r = k" by (auto simp: set_first_seen)
  then show "g \<noteq> []" using get_group_nonempty[of r df] g by simp
  show "subseq g df" using g by (simp add: get_group_def)
qed

lemma grp_by_epoch_order:
  assumes "i < j" "j < length (grp_by_epoch df)"
  shows "\<exists>n. fst (grp_by_epoch df ! i) \<in> epochNum ` set (take n df) \<and>
             fst (grp_by_epoch df ! j) \<notin> epochNum ` set (take n df)"
proof -
  let ?ks = "first_seen [] (map epochNum df)"
  have l: "length (grp_by_epoch df) = length ?ks" by (simp add: grp_by_epoch_def)
  have f: "fst (grp_by_epoch df ! m) = ?ks ! m" if "m < length ?ks" for m
    using that by (simp add: grp_by_epoch_def)
  from assms l have j: "j < length ?ks" and i: "i < length ?ks" by simp_all
  from first_seen_order[OF assms(1) j] obtain n where
    "?ks ! i \<in> set (take n (map epochNum df))" "?ks ! j \<notin> set (take n (map epochNum df))"
    by blast
  then have "?ks ! i \<in> epochNum ` set (take n df)" "?ks ! j \<notin> epochNum ` set (take n df)"
    by (simp_all add: take_map)
  then show ?thesis using f[OF i] f[OF j] by auto
qed

lemma count_before_group:
  "map (\<lambda>i. length (filter (\<lambda>r. epochNum r = k) (take i df)))
       (filter (\<lambda>i. epochNum (df ! i) = k) [0..<length df])
   = [0..<length (filter (\<lambda>r. epochNum r = k) df)]"
proof (induction df rule: rev_induct)
  case Nil
  then show ?case by simp
next
  case (snoc x xs)
  let ?n = "length xs"
  let ?I = "filter (\<lambda>i. epochNum (xs ! i) = k) [0..<?n]"
  have I: "filter (\<lambda>i. epochNum ((xs @ [x]) ! i) = k) [0..<?n] = ?I"
    by (intro filter_cong) (auto simp: nth_append)
  have M: "map (\<lambda>i. length (filter (\<lambda>r. epochNum r = k) (take i (xs @ [x])))) ?I
      = map (\<lambda>i. length (filter (\<lambda>r. epochNum r = k) (take i xs))) ?I"
    by (intro map_cong) auto
  show ?case
  proof (cases "epochNum x = k")
    case True
    then show ?thesis using snoc.IH I M by simp
  next
    case False
    then show ?thesis using snoc.IH I M by simp
  qed
qed

lemma cumcount_group:
  "map (\<lambda>i. cumcount df ! i) (filter (\<lambda>i. epochNum (df ! i) = k) [0..<length df])
   = [0..<length (get_group df k)]"
proof -
  have "map (\<lambda>i. cumcount df ! i) (filter (\<lambda>i. epochNum (df ! i) = k) [0..<length df])
      = map (\<lambda>i. length (filter (\<lambda>r. epochNum r = k) (take i df)))
          (filter (\<lambda>i. epochNum (df ! i) = k) [0..<length df])"
    by (intro map_cong) (auto simp: cumcount_def)
  then show ?thesis by (simp add: count_before_group get_group_def)
qed

lemma count_split:
  assumes "i < length df" "epochNum (df ! i) = k"
  shows "length (filter (\<lambda>r. epochNum r = k) (drop (Suc i) df))
         = length (filter (\<lambda>r. epochNum r = k) df) - 1
           - length (filter (\<lambda>r. epochNum r = k) (take i df))"
proof -
  have "length (filter (\<lambda>r. epochNum r = k) df)
      = length (filter (\<lambda>r. epochNum r = k) (take i df @ df ! i # drop (Suc i) df))"
    by (rule arg_cong[of _ _ "\<lambda>xs. length (filter (\<lambda>r. epochNum r = k) xs)",
          OF id_take_nth_drop[OF assms(1)]])
  also have "\<dots> = length (filter (\<lambda>r. epochNum r = k) (take i df)) + 1
        + length (filter (\<lambda>r. epochNum r = k) (drop (Suc i) df))"
    using assms(2) by simp
  finally show ?thesis by simp
qed

lemma rev_upt_0: "rev [0..<n] = map (\<lambda>p. n - 1 - p) [0..<n]"
  by (intro nth_equalityI) (simp_all add: rev_nth)

lemma cumcount_desc_group:
  "map (\<lambda>i. cumcount_desc df ! i) (filter (\<lambda>i. epochNum (df ! i) = k) [0..<length df])
   = rev [0..<length (get_group df k)]"
proof -
  let ?I = "filter (\<lambda>i. epochNum (df ! i) = k) [0..<length df]"
  let ?L = "length (filter (\<lambda>r. epochNum r = k) df)"
  have "map (\<lambda>i. cumcount_desc df ! i) ?I
      = map (\<lambda>i. ?L - 1 - length (filter (\<lambda>r. epochNum r = k) (take i df))) ?I"
  proof (rule map_cong[OF refl])
    fix i assume "i \<in> set ?I"
    then have i: "i < length df" "epochNum (df ! i) = k" by simp_all
    then show "cumcount_desc df ! i = ?L - 1 - length (filter (\<lambda>r. epochNum r = k) (take i df))"
      using count_split[OF i] by (simp add: cumcount_desc_def)
  qed
  also have "\<dots> = map (\<lambda>p. ?L - 1 - p)
      (map (\<lambda>i. length (filter (\<lambda>r. epochNum r = k) (take i df))) ?I)"
    by (simp add: comp_def)
  also have "\<dots> = rev [0..<?L]"
    unfolding count_before_group by (rule rev_upt_0[symmetric])
  finally show ?thesis by (simp add: get_group_def)
qed

subsection \<open>Epoch grouper\<close>

text \<open>
  Claim C9. For every frame table the epoch grouper gives one group per \<open>epochNum\<close> of the
  table, in the order in which the keys are first met (for two groups, some prefix of the
  table holds the key of the earlier and not yet the key of the later); each group is the
  rows of its key in table order, is not empty, and the groups together hold every row of
  the table exactly once. The group-wise operations stay within one epoch: the rows of epoch
  \<open>k\<close> that a group filter returns are the whole epoch or none, as the predicate decides on
  that epoch's frames alone (the rolling windows and the aggregates of the pipeline are
  computed inside these predicates, on the group they receive); the grouped difference at the
  rows of epoch \<open>k\<close> is the difference series of that epoch's values; the grouped first value
  of a row is the value at the first row of its epoch; the cumulative counts at the rows of an
  epoch number its rows from its start and from its end.
\<close>

theorem epochs_partition_in_first_seen_order:
  fixes df :: "'a frame_id_scheme list"
  shows "distinct (map fst (grp_by_epoch df)) \<and>
   set (map fst (grp_by_epoch df)) = epochNum ` set df \<and>
   (i < j \<and> j < length (grp_by_epoch df) \<longrightarrow>
      (\<exists>n. fst (grp_by_epoch df ! i) \<in> epochNum ` set (take n df) \<and>
           fst (grp_by_epoch df ! j) \<notin> epochNum ` set (take n df))) \<and>
   (\<forall>(k', g) \<in> set (grp_by_epoch df).
      g = filter (\<lambda>r. epochNum r = k') df \<and> g \<noteq> [] \<and> subseq g df) \<and>
   mset (concat (map snd (grp_by_epoch df))) = mset df \<and>
   (grp_filter P df = Inr out \<longrightarrow>
      get_group out k = (if P (get_group df k) = Inr True then get_group df k else [])) \<and>
   (length vs = length df \<longrightarrow>
      map (\<lambda>i. grp_diff (map epochNum df) vs ! i)
          (filter (\<lambda>i. epochNum (df ! i) = k) [0..<length df])
      = series_diff (map (\<lambda>i. vs ! i) (filter (\<lambda>i. epochNum (df ! i) = k) [0..<length df]))) \<and>
   (m < length df \<longrightarrow>
      grp_transform_first (map epochNum df) (map col df) ! m
      = col (hd (get_group df (epochNum (df ! m))))) \<and>
   map (\<lambda>i. cumcount df ! i) (filter (\<lambda>i. epochNum (df ! i) = k) [0..<length df])
     = [0..<length (get_group df k)] \<and>
   map (\<lambda>i. cumcount_desc df ! i) (filter (\<lambda>i. epochNum (df ! i) = k) [0..<length df])
     = rev [0..<length (get_group df k)]"
proof (intro conjI impI ballI)
  show "distinct (map fst (grp_by_epoch df))"
    unfolding grp_by_epoch_keys by (rule distinct_first_seen)
  show "set (map fst (grp_by_epoch df)) = epochNum ` set df"
    unfolding grp_by_epoch_keys by (simp add: set_first_seen)
  show "\<exists>n. fst (grp_by_epoch df ! i) \<in> epochNum ` set (take n df) \<and>
           fst (grp_by_epoch df ! j) \<notin> epochNum ` set (take n df)"
    if "i < j \<and> j < length (grp_by_epoch df)"
    using that grp_by_epoch_order[of i j df] by blast
  show "case p of (k', g) \<Rightarrow> g = filter (\<lambda>r. epochNum r = k') df \<and> g \<noteq> [] \<and> subseq g df"
    if "p \<in> set (grp_by_epoch df)" for p
  proof (cases p)
    case (Pair k' g)
    with that have "(k', g) \<in> set (grp_by_epoch df)" by simp
    from grp_by_epoch_groups[OF this] show ?thesis unfolding Pair by simp
  qed
  show "mset (concat (map snd (grp_by_epoch df))) = mset df"
    by (rule grp_by_epoch_partition)
  show "get_group out k = (if P (get_group df k) = Inr True then get_group df k else [])"
    if "grp_filter P df = Inr out"
    using that by (rule grp_filter_whole)
  show "map (\<lambda>i. grp_diff (map epochNum df) vs ! i)
          (filter (\<lambda>i. epochNum (df ! i) = k) [0..<length df])
      = series_diff (map (\<lambda>i. vs ! i) (filter (\<lambda>i. epochNum (df ! i) = k) [0..<length df]))"
    if l: "length vs = length df"
  proof -
    have f: "filter (\<lambda>i. map epochNum df ! i = k) [0..<length (map epochNum df)]
        = filter (\<lambda>i. epochNum (df ! i) = k) [0..<length df]"
      by (intro filter_cong) auto
    show ?thesis
      using grp_diff_group_index[of "map epochNum df" vs k] l unfolding f by simp
  qed
  show "grp_transform_first (map epochNum df) (map col df) ! m
      = col (hd (get_group df (epochNum (df ! m))))" if "m < length df"
    using that by (rule grp_transform_first_nth)
  show "map (\<lambda>i. cumcount df ! i) (filter (\<lambda>i. epochNum (df ! i) = k) [0..<length df])
     = [0..<length (get_group df k)]"
    by (rule cumcount_group)
  show "map (\<lambda>i. cumcount_desc df ! i) (filter (\<lambda>i. epochNum (df ! i) = k) [0..<length df])
     = rev [0..<length (get_group df k)]"
    by (rule cumcount_desc_group)
qed

lemma trim_example_groups:
  "map fst (grp_by_epoch trim_example) = [1, 2, 3]"
  "length (grp_by_epoch trim_example) = 3"
  "(1, get_group trim_example 1) \<in> set (grp_by_epoch trim_example)"
  "map label (get_group trim_example 1) = [0, 1, 2, 3, 4, 9, 10]"
  "grp_filter (\<lambda>g. Inr (5 \<le> length g)) trim_example = Inr (get_group trim_example 1)"
  "length (get_group trim_example 2) = 4"
  "length (map (\<lambda>r. Fin (real (label r))) trim_example) = length trim_example"
  "series_diff (map (\<lambda>i. map (\<lambda>r. Fin (real (label r))) trim_example ! i)
       (filter (\<lambda>i. epochNum (trim_example ! i) = 1) [0..<length trim_example]))
     = [NaN, Fin 1, Fin 1, Fin 1, Fin 1, Fin 5, Fin 1]"
  "9 < length trim_example"
  "real (label (hd (get_group trim_example (epochNum (trim_example ! 9))))) = 0"
  "length (get_group trim_example 1) = 7"
  by code_simp+

text \<open>Witness for C9: a table of twelve frames in which the first epoch is met again after
  the second.\<close>

theorem epochs_partition_in_first_seen_order_witness:
  "map fst (grp_by_epoch trim_example) = [1, 2, 3] \<and>
   (0::nat) < 1 \<and> 1 < length (grp_by_epoch trim_example) \<and>
   (\<exists>n. fst (grp_by_epoch trim_example ! 0) \<in> epochNum ` set (take n trim_example) \<and>
        fst (grp_by_epoch trim_example ! 1) \<notin> epochNum ` set (take n trim_example)) \<and>
   (1, get_group trim_example 1) \<in> set (grp_by_epoch trim_example) \<and>
   map label (get_group trim_example 1) = [0, 1, 2, 3, 4, 9, 10] \<and>
   subseq (get_group trim_example 1) trim_example \<and>
   grp_filter (\<lambda>g. Inr (5 \<le> length g)) trim_example = Inr (get_group trim_example 1) \<and>
   get_group (get_group trim_example 1) 2 = [] \<and>
   length (map (\<lambda>r. Fin (real (label r))) trim_example) = length trim_example \<and>
   map (\<lambda>i. grp_diff (map epochNum trim_example)
               (map (\<lambda>r. Fin (real (label r))) trim_example) ! i)
       (filter (\<lambda>i. epochNum (trim_example ! i) = 1) [0..<length trim_example])
     = [NaN, Fin 1, Fin 1, Fin 1, Fin 1, Fin 5, Fin 1] \<and>
   9 < length trim_example \<and>
   grp_transform_first (map epochNum trim_example) (map (\<lambda>r. real (label r)) trim_example) ! 9
     = 0 \<and>
   map (\<lambda>i. cumcount trim_example ! i)
       (filter (\<lambda>i. epochNum (trim_example ! i) = 1) [0..<length trim_example]) = [0..<7] \<and>
   map (\<lambda>i. cumcount_desc trim_example ! i)
       (filter (\<lambda>i. epochNum (trim_example ! i) = 1) [0..<length trim_example]) = rev [0..<7]"
proof -
  note e = trim_example_groups
  let ?P = "\<lambda>g :: frame_id list. (Inr (5 \<le> length g) :: error + bool)"
  let ?vs = "map (\<lambda>r. Fin (real (label r))) trim_example"
  let ?col = "\<lambda>r :: frame_id. real (label r)"
  note t = epochs_partition_in_first_seen_order[of trim_example 0 1 ?P "get_group trim_example 1"
      _ ?vs 9 ?col]
  note c2 = conjunct2
  note t3 = t[THEN c2, THEN c2, THEN conjunct1]
  note t4 = t[THEN c2, THEN c2, THEN c2, THEN conjunct1]
  note t6 = t[THEN c2, THEN c2, THEN c2, THEN c2, THEN c2, THEN conjunct1]
  note t7 = t[THEN c2, THEN c2, THEN c2, THEN c2, THEN c2, THEN c2, THEN conjunct1]
  note t8 = t[THEN c2, THEN c2, THEN c2, THEN c2, THEN c2, THEN c2, THEN c2, THEN conjunct1]
  note t9 = t[THEN c2, THEN c2, THEN c2, THEN c2, THEN c2, THEN c2, THEN c2, THEN c2,
      THEN conjunct1]
  note t10 = t[THEN c2, THEN c2, THEN c2, THEN c2, THEN c2, THEN c2, THEN c2, THEN c2, THEN c2]
  have ij: "(0::nat) < 1 \<and> 1 < length (grp_by_epoch trim_example)" by (simp add: e(2))
  have ord: "\<exists>n. fst (grp_by_epoch trim_example ! 0) \<in> epochNum ` set (take n trim_example) \<and>
        fst (grp_by_epoch trim_example ! 1) \<notin> epochNum ` set (take n trim_example)"
    using t3 ij by (rule mp)
  have "case (1, get_group trim_example 1) of (k', g) \<Rightarrow>
      g = filter (\<lambda>r. epochNum r = k') trim_example \<and> g \<noteq> [] \<and> subseq g trim_example"
    using t4 e(3) by (rule bspec)
  then have sub: "subseq (get_group trim_example 1) trim_example" by simp
  have "get_group (get_group trim_example 1) 2
      = (if ?P (get_group trim_example 2) = Inr True then get_group trim_example 2 else [])"
    using t6[of 2] e(5) by (rule mp)
  then have flt: "get_group (get_group trim_example 1) 2 = []" by (simp add: e(6))
  have "map (\<lambda>i. grp_diff (map epochNum trim_example) ?vs ! i)
       (filter (\<lambda>i. epochNum (trim_example ! i) = 1) [0..<length trim_example])
     = series_diff (map (\<lambda>i. ?vs ! i)
         (filter (\<lambda>i. epochNum (trim_example ! i) = 1) [0..<length trim_example]))"
    using t7[of 1] e(7) by (rule mp)
  then have dif: "map (\<lambda>i. grp_diff (map epochNum trim_example) ?vs ! i)
       (filter (\<lambda>i. epochNum (trim_example ! i) = 1) [0..<length trim_example])
     = [NaN, Fin 1, Fin 1, Fin 1, Fin 1, Fin 5, Fin 1]"
    unfolding e(8) .
  have "grp_transform_first (map epochNum trim_example) (map ?col trim_example) ! 9
      = ?col (hd (get_group trim_example (epochNum (trim_example ! 9))))"
    using t8 e(9) by (rule mp)
  then have fst: "grp_transform_first (map epochNum trim_example) (map ?col trim_example) ! 9 = 0"
    unfolding e(10) .
  have cc: "map (\<lambda>i. cumcount trim_example ! i)
       (filter (\<lambda>i. epochNum (trim_example ! i) = 1) [0..<length trim_example]) = [0..<7]"
    using t9[of 1] unfolding e(11) .
  have cd: "map (\<lambda>i. cumcount_desc trim_example ! i)
       (filter (\<lambda>i. epochNum (trim_example ! i) = 1) [0..<length trim_example]) = rev [0..<7]"
    using t10[of 1] unfolding e(11) .
  have z: "(0::nat) < 1" by simp
  show ?thesis
    by (intro conjI e(1) e(3) e(4) e(5) e(7) e(9) ord sub flt dif fst cc cd z ij[THEN conjunct2])
qed

subsection \<open>Angular-velocity predicate of the plausibility filter\<close>

lemma jump_epoch_shape:
  "map label (kin_epoch 2 100 100 jump_angVel) = [100..<200] \<and>
   take 3 (map angVel (kin_epoch 2 100 100 jump_angVel)) = [NaN, Fin 270, Fin 0]"
  by code_simp

lemma jump_epoch_kept: "ang_vel_keep (kin_epoch 2 100 100 jump_angVel) = Inr True"
  by code_simp

lemma jump_epoch_spec_dropped: "spec_ang_vel_keep (kin_epoch 2 100 100 jump_angVel) = Inr False"
  by code_simp

lemma jump_epoch_label0_dropped: "ang_vel_keep (kin_epoch 2 0 100 jump_angVel) = Inr False"
  by code_simp

text \<open>
  Claim C2 at a failing input. An epoch of 100 frames with the labels 100 to 199 (any epoch
  but the one that holds the table's label 0), whose \<open>angVel\<close> is undefined at the first frame,
  270 at the second and 0 afterwards. The claim's predicate, smoothing frames 2 to the end,
  has the maximum 270 and drops the epoch. The code slices by index label
  (\<open>g.loc[1:, 'angVel']\<close>), keeps the first frame in the smoothed series, finds the maximum
  90 and keeps the epoch. The same epoch under the labels 0 to 99 loses its first frame to
  the slice and is dropped.
\<close>

theorem angvel_filter_keeps_first_frame:
  "map label (kin_epoch 2 100 100 jump_angVel) = [100..<200] \<and>
   take 3 (map angVel (kin_epoch 2 100 100 jump_angVel)) = [NaN, Fin 270, Fin 0] \<and>
   ang_vel_keep (kin_epoch 2 100 100 jump_angVel) = Inr True \<and>
   spec_ang_vel_keep (kin_epoch 2 100 100 jump_angVel) = Inr False \<and>
   ang_vel_keep (kin_epoch 2 0 100 jump_angVel) = Inr False"
  using jump_epoch_shape jump_epoch_kept jump_epoch_spec_dropped jump_epoch_label0_dropped
  by (intro conjI) (erule conjunct1, erule conjunct2, assumption+)

end
